theory Spec2Isabelle
  imports Main
begin

section \<open>Elements, cursors and cursor pairs\<close>

text \<open>
  A set element is any struct with a public member \<open>Id\<close> (the member that
  \<open>union_set_iterator::start\<close> reads); further members live in the extension of the
  record. The \<open>element_id\<close> functor of the source is a template that applications may
  specialise per element type, so every operation below takes it as the parameter
  \<open>element_id\<close>.
\<close>

record element =
  Id :: int

definition get_element_id :: "('e \<Rightarrow> int) \<Rightarrow> 'e \<Rightarrow> int" where
  "get_element_id element_id x = element_id x"

text \<open>
  An iterator of a base set (a \<open>flat_set\<close>, a sorted contiguous array) is a position in
  the array it points into. Dereferencing the end position and incrementing past it are
  undefined in the source; the model returns an error value there. Two iterators are
  equal when they are the same position of the same array.
\<close>

record 'e cursor =
  base :: "'e list"
  pos :: nat

datatype error = DerefEnd | IncrementPastEnd

definition deref :: "'e cursor \<Rightarrow> error + 'e" where
  "deref c = (if pos c < length (base c) then Inr (base c ! pos c) else Inl DerefEnd)"

definition incr :: "'e cursor \<Rightarrow> error + 'e cursor" where
  "incr c = (if pos c < length (base c) then Inr (c\<lparr>pos := Suc (pos c)\<rparr>) else Inl IncrementPastEnd)"

text \<open>
  The member \<open>end\<close> of \<open>union_set_iterator_pair\<close> is the field \<open>endIt\<close>, after the
  parameter of the constructor. The operators \<open>++\<close>, \<open>*\<close> and \<open>==\<close> of the iterator are
  \<open>operator_inc\<close>, \<open>operator_deref\<close> and \<open>iterator_eq\<close> below.
\<close>

record 'e union_set_iterator_pair =
  current :: "'e cursor"
  endIt :: "'e cursor"

definition make_union_set_iterator_pair :: "'e cursor \<Rightarrow> 'e cursor \<Rightarrow> 'e union_set_iterator_pair" where
  "make_union_set_iterator_pair c e = \<lparr>current = c, endIt = e\<rparr>"

text \<open>\<open>union_set_iterator_pair::operator==\<close> compares the current iterators only.\<close>

definition pair_eq :: "'e union_set_iterator_pair \<Rightarrow> 'e union_set_iterator_pair \<Rightarrow> bool" where
  "pair_eq a b = (current a = current b)"

section \<open>The union set iterator\<close>

text \<open>
  The members \<open>max_\<close> and \<open>sets_\<close> of the source are the fields \<open>m_max\<close> and \<open>m_sets\<close>; the
  tuple of iterator pairs is a list, read by index as \<open>std::get<N>\<close> reads the tuple.
\<close>

record 'e union_set_iterator =
  m_max :: int
  m_sets :: "'e union_set_iterator_pair list"

definition max_index :: "'e union_set_iterator \<Rightarrow> nat" where
  "max_index it = length (m_sets it) - 1"

definition has_single_set :: "'e union_set_iterator \<Rightarrow> bool" where
  "has_single_set it = (length (m_sets it) = 1)"

definition set_current :: "nat \<Rightarrow> 'e cursor \<Rightarrow> 'e union_set_iterator \<Rightarrow> 'e union_set_iterator" where
  "set_current N c it = it\<lparr>m_sets := (m_sets it)[N := (m_sets it ! N)\<lparr>current := c\<rparr>]\<rparr>"

fun advance_to_end :: "nat \<Rightarrow> 'e union_set_iterator \<Rightarrow> 'e union_set_iterator" where
  "advance_to_end 0 it = set_current 0 (endIt (m_sets it ! 0)) it"
| "advance_to_end (Suc N) it =
     advance_to_end N (set_current (Suc N) (endIt (m_sets it ! Suc N)) it)"

definition advance_all_to_end :: "'e union_set_iterator \<Rightarrow> 'e union_set_iterator" where
  "advance_all_to_end it = advance_to_end (max_index it) it"

fun at_end :: "nat \<Rightarrow> 'e union_set_iterator \<Rightarrow> bool" where
  "at_end 0 it = (current (m_sets it ! 0) = endIt (m_sets it ! 0))"
| "at_end (Suc N) it =
     (current (m_sets it ! Suc N) = endIt (m_sets it ! Suc N) \<or> at_end N it)"

definition any_at_end :: "'e union_set_iterator \<Rightarrow> bool" where
  "any_at_end it = at_end (max_index it) it"

text \<open>
  The inner loop of \<open>advance_until\<close>: step the cursor of one set while its identifier is
  below \<open>max_\<close>. The flag of the result says that the cursor ran into its end.
\<close>

function advance_while_less ::
  "('e \<Rightarrow> int) \<Rightarrow> int \<Rightarrow> 'e union_set_iterator_pair \<Rightarrow> error + (bool \<times> 'e union_set_iterator_pair)" where
  "advance_while_less element_id m p =
     (case deref (current p) of
        Inl e \<Rightarrow> Inl e
      | Inr x \<Rightarrow>
          if get_element_id element_id x < m then
            (case incr (current p) of
               Inl e \<Rightarrow> Inl e
             | Inr c \<Rightarrow>
                 if c = endIt p then Inr (True, p\<lparr>current := c\<rparr>)
                 else advance_while_less element_id m (p\<lparr>current := c\<rparr>))
          else Inr (False, p))"
  by pat_completeness auto

termination
  by (relation "measure (\<lambda>(f, m, p). length (base (current p)) - pos (current p))")
     (auto simp: deref_def incr_def split: if_splits)

declare advance_while_less.simps [simp del]

text \<open>
  \<open>advance_until<N>(tag)\<close>: the \<open>true_type\<close> overload returns \<open>true\<close> at once; the
  \<open>false_type\<close> overload catches set \<open>N\<close> up and recurses to \<open>N - 1\<close> with the tag
  \<open>N == 0\<close>.
\<close>

function advance_until ::
  "('e \<Rightarrow> int) \<Rightarrow> nat \<Rightarrow> bool \<Rightarrow> 'e union_set_iterator \<Rightarrow> error + (bool \<times> 'e union_set_iterator)" where
  "advance_until element_id N True it = Inr (True, it)"
| "advance_until element_id N False it =
     (case advance_while_less element_id (m_max it) (m_sets it ! N) of
        Inl e \<Rightarrow> Inl e
      | Inr (hit_end, p) \<Rightarrow>
          let it1 = it\<lparr>m_sets := (m_sets it)[N := p]\<rparr> in
          if hit_end then Inr (True, advance_all_to_end it1)
          else
            (case deref (current p) of
               Inl e \<Rightarrow> Inl e
             | Inr x \<Rightarrow>
                 if m_max it1 < get_element_id element_id x
                 then Inr (False, it1\<lparr>m_max := get_element_id element_id x\<rparr>)
                 else advance_until element_id (N - 1) (N = 0) it1))"
  by pat_completeness auto

termination
  by (relation "measure (\<lambda>(f, N, single, it). if single then 0 else Suc N)") auto

text \<open>
  The loop \<open>while (!advance_until<max_index()>(has_single_set)) {}\<close> of
  \<open>operator++\<close>. Its termination proof follows the lemmas on \<open>advance_until\<close>.
\<close>

function sync_loop ::
  "('e \<Rightarrow> int) \<Rightarrow> 'e union_set_iterator \<Rightarrow> error + 'e union_set_iterator" where
  "sync_loop element_id it =
     (case advance_until element_id (max_index it) (has_single_set it) it of
        Inl e \<Rightarrow> Inl e
      | Inr (aligned, it') \<Rightarrow> if aligned then Inr it' else sync_loop element_id it')"
  by pat_completeness auto

text \<open>
  \<open>operator++\<close>: the cursor of the last set (index \<open>max_index()\<close>) is always
  incremented; with more than one set the others are then caught up.
\<close>

definition operator_inc ::
  "('e \<Rightarrow> int) \<Rightarrow> 'e union_set_iterator \<Rightarrow> error + 'e union_set_iterator" where
  "operator_inc element_id it =
     (case incr (current (m_sets it ! max_index it)) of
        Inl e \<Rightarrow> Inl e
      | Inr c \<Rightarrow>
          let it1 = set_current (max_index it) c it in
          if max_index it > 0 \<and> c = endIt (m_sets it1 ! max_index it)
          then Inr (advance_all_to_end it1)
          else if max_index it > 0 then
            (case deref c of
               Inl e \<Rightarrow> Inl e
             | Inr x \<Rightarrow> sync_loop element_id (it1\<lparr>m_max := get_element_id element_id x\<rparr>))
          else Inr it1)"

text \<open>
  \<open>start()\<close>, run by the constructor. The emptiness check is made only with more than
  one set; \<open>max_\<close> is then read from the member \<open>Id\<close> of the record under the cursor
  of the last set (\<open>current->Id\<close>).
\<close>

definition start ::
  "('a element_scheme \<Rightarrow> int) \<Rightarrow> 'a element_scheme union_set_iterator \<Rightarrow>
     error + 'a element_scheme union_set_iterator" where
  "start element_id it =
     (if max_index it \<noteq> 0 \<and> any_at_end it then Inr (advance_all_to_end it)
      else
        (case deref (current (m_sets it ! max_index it)) of
           Inl e \<Rightarrow> Inl e
         | Inr x \<Rightarrow>
             let it1 = it\<lparr>m_max := Id x\<rparr> in
             (case advance_until element_id (max_index it1 - 1) (has_single_set it1) it1 of
                Inl e \<Rightarrow> Inl e
              | Inr (aligned, it2) \<Rightarrow>
                  if aligned then Inr it2 else operator_inc element_id it2)))"

definition make_union_set_iterator ::
  "('a element_scheme \<Rightarrow> int) \<Rightarrow> 'a element_scheme union_set_iterator_pair list \<Rightarrow>
     error + 'a element_scheme union_set_iterator" where
  "make_union_set_iterator element_id args = start element_id \<lparr>m_max = 0, m_sets = args\<rparr>"

text \<open>\<open>operator==\<close> of the iterator compares the tuples of pairs component by component.\<close>

definition iterator_eq :: "'e union_set_iterator \<Rightarrow> 'e union_set_iterator \<Rightarrow> bool" where
  "iterator_eq a b = list_all2 pair_eq (m_sets a) (m_sets b)"

text \<open>
  \<open>operator*\<close> builds a \<open>union_set_el\<close> of pointers \<open>&*current\<close>, one per set. A
  pointer to a record is the position of the record in its array.
\<close>

definition address_of_deref :: "'e cursor \<Rightarrow> error + 'e cursor" where
  "address_of_deref c = (case deref c of Inl e \<Rightarrow> Inl e | Inr x \<Rightarrow> Inr c)"

fun collect :: "(error + 'b) list \<Rightarrow> error + 'b list" where
  "collect [] = Inr []"
| "collect (r # rs) =
     (case r of
        Inl e \<Rightarrow> Inl e
      | Inr x \<Rightarrow> (case collect rs of Inl e \<Rightarrow> Inl e | Inr xs \<Rightarrow> Inr (x # xs)))"

definition operator_deref :: "'e union_set_iterator \<Rightarrow> error + 'e cursor list" where
  "operator_deref it = collect (map (\<lambda>p. address_of_deref (current p)) (m_sets it))"

text \<open>Reading a record through a pointer of a view.\<close>

definition pointee :: "'e cursor \<Rightarrow> 'e" where
  "pointee c = base c ! pos c"

section \<open>The union set\<close>

text \<open>
  Modelled from the spec: the base container (\<open>boost::container::flat_set\<close>) is not part
  of the repository. The core uses its \<open>begin()\<close>, \<open>end()\<close> and \<open>find\<close>; \<open>find\<close> is the
  point lookup by identifier, which returns the position of the record with that
  identifier, or the end position when there is none.
\<close>

definition flat_set_begin :: "'e list \<Rightarrow> 'e cursor" where
  "flat_set_begin s = \<lparr>base = s, pos = 0\<rparr>"

definition flat_set_end :: "'e list \<Rightarrow> 'e cursor" where
  "flat_set_end s = \<lparr>base = s, pos = length s\<rparr>"

fun find_pos :: "('e \<Rightarrow> int) \<Rightarrow> int \<Rightarrow> 'e list \<Rightarrow> nat" where
  "find_pos element_id key [] = 0"
| "find_pos element_id key (x # xs) =
     (if element_id x = key then 0 else Suc (find_pos element_id key xs))"

definition flat_set_find :: "('e \<Rightarrow> int) \<Rightarrow> 'e list \<Rightarrow> int \<Rightarrow> 'e cursor" where
  "flat_set_find element_id s key = \<lparr>base = s, pos = find_pos element_id key s\<rparr>"

text \<open>
  A \<open>union_set\<close> stores pointers to its base sets; \<open>begin\<close>, \<open>end\<close> and \<open>find\<close> pair a
  cursor of every set with the end of that set and construct the iterator.
\<close>

definition union_begin ::
  "('a element_scheme \<Rightarrow> int) \<Rightarrow> 'a element_scheme list list \<Rightarrow>
     error + 'a element_scheme union_set_iterator" where
  "union_begin element_id sets =
     make_union_set_iterator element_id
       (map (\<lambda>s. make_union_set_iterator_pair (flat_set_begin s) (flat_set_end s)) sets)"

definition union_end ::
  "('a element_scheme \<Rightarrow> int) \<Rightarrow> 'a element_scheme list list \<Rightarrow>
     error + 'a element_scheme union_set_iterator" where
  "union_end element_id sets =
     make_union_set_iterator element_id
       (map (\<lambda>s. make_union_set_iterator_pair (flat_set_end s) (flat_set_end s)) sets)"

definition union_find ::
  "('a element_scheme \<Rightarrow> int) \<Rightarrow> int \<Rightarrow> 'a element_scheme list list \<Rightarrow>
     error + 'a element_scheme union_set_iterator" where
  "union_find element_id key sets =
     make_union_set_iterator element_id
       (map (\<lambda>s. make_union_set_iterator_pair (flat_set_find element_id s key) (flat_set_end s)) sets)"

section \<open>Traversal\<close>

text \<open>
  The identifiers seen through a view: the projection of every record it points to.
\<close>

definition view_ids :: "('e \<Rightarrow> int) \<Rightarrow> 'e cursor list \<Rightarrow> int list" where
  "view_ids element_id v = map (\<lambda>c. get_element_id element_id (pointee c)) v"

text \<open>
  The loop \<open>for (it = begin(); it != end(); ++it) use(*it)\<close> of the callers, with a
  bound on the number of rounds: \<open>None\<close> means that the bound was too small. The result
  lists, per round, the identifiers of the records of the view.
\<close>

fun traverse_from ::
  "('e \<Rightarrow> int) \<Rightarrow> nat \<Rightarrow> 'e union_set_iterator \<Rightarrow> 'e union_set_iterator \<Rightarrow>
     (error + int list list) option" where
  "traverse_from element_id 0 stop it = None"
| "traverse_from element_id (Suc fuel) stop it =
     (if iterator_eq it stop then Some (Inr [])
      else
        (case operator_deref it of
           Inl e \<Rightarrow> Some (Inl e)
         | Inr v \<Rightarrow>
             (case operator_inc element_id it of
                Inl e \<Rightarrow> Some (Inl e)
              | Inr it' \<Rightarrow>
                  (case traverse_from element_id fuel stop it' of
                     None \<Rightarrow> None
                   | Some (Inl e) \<Rightarrow> Some (Inl e)
                   | Some (Inr vs) \<Rightarrow> Some (Inr (view_ids element_id v # vs))))))"

definition traverse ::
  "('a element_scheme \<Rightarrow> int) \<Rightarrow> nat \<Rightarrow> 'a element_scheme list list \<Rightarrow>
     (error + int list list) option" where
  "traverse element_id fuel sets =
     (case union_begin element_id sets of
        Inl e \<Rightarrow> Some (Inl e)
      | Inr first \<Rightarrow>
          (case union_end element_id sets of
             Inl e \<Rightarrow> Some (Inl e)
           | Inr stop \<Rightarrow> traverse_from element_id fuel stop first))"

text \<open>\<open>n\<close> calls of \<open>operator++\<close> in a row.\<close>

fun advances ::
  "('e \<Rightarrow> int) \<Rightarrow> nat \<Rightarrow> 'e union_set_iterator \<Rightarrow> error + 'e union_set_iterator" where
  "advances element_id 0 it = Inr it"
| "advances element_id (Suc n) it =
     (case operator_inc element_id it of
        Inl e \<Rightarrow> Inl e
      | Inr it' \<Rightarrow> advances element_id n it')"

section \<open>Composite views\<close>

text \<open>
  A \<open>union_set_el<Types...>\<close> is a tuple of pointers that is read by type: the model
  pairs every pointer with the name of its type. \<open>std::get<T>\<close> is ill-formed unless
  \<open>T\<close> occurs exactly once in the tuple (\<open>None\<close> in the model), and the constructor from
  a superset tuple exists only when \<open>meta::is_subset\<close> holds. That constructor stores
  \<open>&*std::get<T>(x)\<close> for every type \<open>T\<close> of the target, which is the pointer
  \<open>std::get<T>(x)\<close> itself. \<open>get<T>\<close> returns the reference \<open>*std::get<T*>(x)\<close>; a
  reference is modelled by the pointer to the record it denotes.
\<close>

type_synonym ('t, 'p) union_set_el = "('t \<times> 'p) list"

fun tuple_has_type :: "'t \<Rightarrow> 't list \<Rightarrow> bool" where
  "tuple_has_type T [] = False"
| "tuple_has_type T (U # Types) = (if T = U then True else tuple_has_type T Types)"

fun is_subset :: "'t list \<Rightarrow> 't list \<Rightarrow> bool" where
  "is_subset TTuple [] = True"
| "is_subset TTuple (Head # Tail) =
     (if tuple_has_type Head TTuple then is_subset TTuple Tail else False)"

definition std_get :: "'t \<Rightarrow> ('t, 'p) union_set_el \<Rightarrow> 'p option" where
  "std_get T x = (case filter (\<lambda>c. fst c = T) x of [c] \<Rightarrow> Some (snd c) | _ \<Rightarrow> None)"

definition get :: "'t \<Rightarrow> ('t, 'p) union_set_el \<Rightarrow> 'p option" where
  "get T x = std_get T x"

fun components :: "'t list \<Rightarrow> ('t, 'p) union_set_el \<Rightarrow> ('t, 'p) union_set_el option" where
  "components [] x = Some []"
| "components (T # Types) x =
     (case std_get T x of
        None \<Rightarrow> None
      | Some p \<Rightarrow> (case components Types x of None \<Rightarrow> None | Some cs \<Rightarrow> Some ((T, p) # cs)))"

definition union_set_el_from_superset ::
  "'t list \<Rightarrow> ('t, 'p) union_set_el \<Rightarrow> ('t, 'p) union_set_el option" where
  "union_set_el_from_superset Types x =
     (if is_subset (map fst x) Types then components Types x else None)"

section \<open>Notions of the statements\<close>

text \<open>
  The pair of a cursor at position \<open>k\<close> of a set with the end of that set, and the iterator
  over the sets \<open>ss\<close> whose cursors stand at the positions \<open>P\<close>.
\<close>

definition at_pos :: "'e list \<Rightarrow> nat \<Rightarrow> 'e union_set_iterator_pair" where
  "at_pos s k = \<lparr>current = \<lparr>base = s, pos = k\<rparr>, endIt = flat_set_end s\<rparr>"

definition state :: "'e list list \<Rightarrow> int \<Rightarrow> nat list \<Rightarrow> 'e union_set_iterator" where
  "state ss m P = \<lparr>m_max = m, m_sets = map (\<lambda>(s, j). at_pos s j) (zip ss P)\<rparr>"

text \<open>
  The two states of the specification. In the end state every cursor equals its own end
  cursor; in a positioned state every cursor can be dereferenced and all the records have
  the same identifier.
\<close>

definition end_state :: "'e union_set_iterator \<Rightarrow> bool" where
  "end_state it = list_all (\<lambda>p. current p = endIt p) (m_sets it)"

definition positioned :: "('e \<Rightarrow> int) \<Rightarrow> 'e union_set_iterator \<Rightarrow> bool" where
  "positioned f it =
     (case operator_deref it of
        Inl e \<Rightarrow> False
      | Inr v \<Rightarrow> list_all (\<lambda>i. i = hd (view_ids f v)) (view_ids f v))"

text \<open>
  What an operation must leave alone: the arrays the cursors point into and the end
  cursors. A pair is well formed when both of its cursors point into the same array.
\<close>

definition arrays :: "'e union_set_iterator \<Rightarrow> 'e list list" where
  "arrays it = map (\<lambda>p. base (current p)) (m_sets it)"

definition ends :: "'e union_set_iterator \<Rightarrow> 'e cursor list" where
  "ends it = map endIt (m_sets it)"

definition pair_wf :: "'e union_set_iterator_pair \<Rightarrow> bool" where
  "pair_wf p = (base (current p) = base (endIt p))"

definition same_arrays :: "'e union_set_iterator \<Rightarrow> 'e union_set_iterator \<Rightarrow> bool" where
  "same_arrays a b =
     (map endIt (m_sets a) = map endIt (m_sets b) \<and>
      map (\<lambda>p. base (current p)) (m_sets a) = map (\<lambda>p. base (current p)) (m_sets b))"

text \<open>
  The identifiers under the cursors \<open>0..max_index\<close>, for the termination of \<open>sync_loop\<close>.
\<close>

definition ids_upto :: "('e \<Rightarrow> int) \<Rightarrow> 'e union_set_iterator \<Rightarrow> int set" where
  "ids_upto f it = (\<Union>k\<le>max_index it. f ` set (base (current (m_sets it ! k))))"

text \<open>
  For sets sorted strictly ascending by identifier and cursors at the positions \<open>P\<close>:
  \<open>rest_ids\<close> are the identifiers that every set still has at or after its cursor;
  \<open>live\<close> says that no cursor is at its end, \<open>heads_at\<close> that every cursor stands on
  identifier \<open>m\<close>; a state is \<open>settled\<close> when it is the end state with no common identifier
  left, or all cursors stand on \<open>m\<close>. \<open>ends_upto N\<close> are the positions after
  \<open>advance_to_end<N>\<close>.
\<close>

fun ends_upto :: "nat \<Rightarrow> 'e list list \<Rightarrow> nat list \<Rightarrow> nat list" where
  "ends_upto 0 ss P = P[0 := length (ss ! 0)]"
| "ends_upto (Suc N) ss P = ends_upto N ss (P[Suc N := length (ss ! Suc N)])"

definition rest_ids :: "('e \<Rightarrow> int) \<Rightarrow> 'e list list \<Rightarrow> nat list \<Rightarrow> int set" where
  "rest_ids f ss P = {c. \<forall>k<length ss. c \<in> f ` set (drop (P ! k) (ss ! k))}"

definition live :: "'e list list \<Rightarrow> nat list \<Rightarrow> bool" where
  "live ss P = (\<forall>k<length ss. P ! k < length (ss ! k))"

definition heads_at :: "('e \<Rightarrow> int) \<Rightarrow> 'e list list \<Rightarrow> nat list \<Rightarrow> int \<Rightarrow> bool" where
  "heads_at f ss P m = (\<forall>k<length ss. f (ss ! k ! (P ! k)) = m)"

definition strictly_sorted :: "('e \<Rightarrow> int) \<Rightarrow> 'e list list \<Rightarrow> bool" where
  "strictly_sorted f ss = (\<forall>s\<in>set ss. sorted_wrt (<) (map f s))"

definition settled :: "('e \<Rightarrow> int) \<Rightarrow> 'e list list \<Rightarrow> int \<Rightarrow> nat list \<Rightarrow> bool" where
  "settled f ss m P =
     ((P = map length ss \<and> rest_ids f ss P = {}) \<or> (live ss P \<and> heads_at f ss P m))"

text \<open>
  The three sets \<open>A\<close>, \<open>B\<close> and \<open>C\<close> with identifiers \<open>{1,2,3}\<close>, \<open>{1,2}\<close> and \<open>{2,3}\<close>; a
  record type whose identifier is a member other than \<open>Id\<close>, for an application that
  specialises \<open>element_id\<close>; and the component types of the example program.
\<close>

definition seqA :: "element list" where
  "seqA = [\<lparr>Id = 1\<rparr>, \<lparr>Id = 2\<rparr>, \<lparr>Id = 3\<rparr>]"

definition seqB :: "element list" where
  "seqB = [\<lparr>Id = 1\<rparr>, \<lparr>Id = 2\<rparr>]"

definition seqC :: "element list" where
  "seqC = [\<lparr>Id = 2\<rparr>, \<lparr>Id = 3\<rparr>]"

record tagged = element +
  entity :: int

datatype component_type = Transform | RigidBody | Character

section \<open>Termination of the synchronisation loop\<close>

text \<open>
  A pass of \<open>advance_until\<close> that returns \<open>false\<close> has raised \<open>max_\<close> to the identifier
  under one of the cursors, so fewer identifiers of the sets lie above \<open>max_\<close> after it.
\<close>

lemma advance_while_less_frame:
  "advance_while_less f m p = Inr (b, p') \<Longrightarrow>
     base (current p') = base (current p) \<and> endIt p' = endIt p \<and>
     pos (current p) \<le> pos (current p')"
proof (induction f m p rule: advance_while_less.induct)
  case (1 f m p)
  note eq = advance_while_less.simps[of f m p]
  note prem = "1.prems"[unfolded eq]
  show ?case
  proof (cases "deref (current p)")
    case (Inl e)
    with prem show ?thesis by simp
  next
    case (Inr x)
    show ?thesis
    proof (cases "get_element_id f x < m")
      case False
      with Inr prem show ?thesis by simp
    next
      case True
      show ?thesis
      proof (cases "incr (current p)")
        case (Inl e)
        with Inr True prem show ?thesis by simp
      next
        case c: (Inr c)
        then have cb: "base c = base (current p)" "pos c = Suc (pos (current p))"
          by (auto simp: incr_def split: if_splits)
        show ?thesis
        proof (cases "c = endIt p")
          case True
          with Inr \<open>get_element_id f x < m\<close> c prem cb show ?thesis by auto
        next
          case False
          with Inr \<open>get_element_id f x < m\<close> c prem
          have "advance_while_less f m (p\<lparr>current := c\<rparr>) = Inr (b, p')" by simp
          from "1.IH"[OF Inr \<open>get_element_id f x < m\<close> c False this] cb
          show ?thesis by simp
        qed
      qed
    qed
  qed
qed

lemma nth_update_same_image:
  "g p = g (xs ! N) \<Longrightarrow> g (xs[N := p] ! k) = g (xs ! k)"
proof (cases "N < length xs")
  case True
  assume "g p = g (xs ! N)"
  with True show ?thesis by (cases "k = N") simp_all
next
  case False
  then have "xs[N := p] = xs" by (simp add: list_update_beyond)
  then show ?thesis by simp
qed

lemma deref_in_set: "deref c = Inr x \<Longrightarrow> x \<in> set (base c)"
  by (auto simp: deref_def split: if_splits)

lemma advance_until_raises:
  "advance_until f N s it = Inr (False, it') \<Longrightarrow>
     length (m_sets it') = length (m_sets it) \<and>
     (\<forall>k. base (current (m_sets it' ! k)) = base (current (m_sets it ! k))) \<and>
     m_max it < m_max it' \<and>
     (\<exists>k\<le>N. m_max it' \<in> f ` set (base (current (m_sets it ! k))))"
proof (induction f N s it rule: advance_until.induct)
  case (1 f N it)
  then show ?case by simp
next
  case (2 f N it)
  from "2.prems" obtain hit p where w: "advance_while_less f (m_max it) (m_sets it ! N) = Inr (hit, p)"
    by (auto split: sum.splits)
  with "2.prems" have nohit: "\<not> hit" by (auto simp: Let_def split: if_splits)
  from "2.prems" w nohit obtain x where d: "deref (current p) = Inr x"
    by (auto simp: Let_def split: sum.splits)
  from advance_while_less_frame[OF w]
  have bp: "base (current p) = base (current (m_sets it ! N))" by simp
  define it1 where "it1 = it\<lparr>m_sets := (m_sets it)[N := p]\<rparr>"
  have b1: "base (current (m_sets it1 ! k)) = base (current (m_sets it ! k))" for k
    unfolding it1_def using nth_update_same_image[of "\<lambda>q. base (current q)" p "m_sets it" N k] bp
    by simp
  have xin: "get_element_id f x \<in> f ` set (base (current (m_sets it ! N)))"
    using deref_in_set[OF d] bp by (simp add: get_element_id_def)
  show ?case
  proof (cases "m_max it < get_element_id f x")
    case True
    with "2.prems" w nohit d have "it' = it1\<lparr>m_max := get_element_id f x\<rparr>"
      by (simp add: Let_def it1_def)
    with True b1 xin show ?thesis by (auto simp: it1_def)
  next
    case False
    with "2.prems" w nohit d have r: "advance_until f (N - 1) (N = 0) it1 = Inr (False, it')"
      by (simp add: Let_def it1_def)
    have ih: "length (m_sets it') = length (m_sets it1) \<and>
     (\<forall>k. base (current (m_sets it' ! k)) = base (current (m_sets it1 ! k))) \<and>
     m_max it1 < m_max it' \<and>
     (\<exists>k\<le>N - 1. m_max it' \<in> f ` set (base (current (m_sets it1 ! k))))"
      using "2.IH"[OF w refl refl nohit d] False r
      by (simp add: it1_def)
    then obtain k where k: "k \<le> N - 1" "m_max it' \<in> f ` set (base (current (m_sets it1 ! k)))"
      by blast
    have l1: "length (m_sets it1) = length (m_sets it)" by (simp add: it1_def)
    have m1: "m_max it1 = m_max it" by (simp add: it1_def)
    have "k \<le> N" using k(1) by simp
    moreover have "m_max it' \<in> f ` set (base (current (m_sets it ! k)))"
      using k(2) b1[of k] by simp
    ultimately have ex: "\<exists>k\<le>N. m_max it' \<in> f ` set (base (current (m_sets it ! k)))"
      by blast
    from ih l1 m1 b1 ex show ?thesis by simp
  qed
qed

lemma finite_ids_upto: "finite (ids_upto f it)"
  by (simp add: ids_upto_def)

termination sync_loop
proof (relation "measure (\<lambda>(f, it). card {x \<in> ids_upto f it. m_max it < x})", goal_cases)
  case 1
  show ?case by simp
next
  case (2 f it r aligned it')
  then have a: "advance_until f (max_index it) (has_single_set it) it = Inr (False, it')"
    by simp
  note R = advance_until_raises[OF a]
  have mi: "max_index it' = max_index it" using R by (simp add: max_index_def)
  have ids: "ids_upto f it' = ids_upto f it" using R mi by (simp add: ids_upto_def)
  have mem: "m_max it' \<in> ids_upto f it" using R by (auto simp: ids_upto_def)
  have "{x \<in> ids_upto f it. m_max it' < x} \<subset> {x \<in> ids_upto f it. m_max it < x}"
    using R mem by auto
  then have "card {x \<in> ids_upto f it. m_max it' < x} < card {x \<in> ids_upto f it. m_max it < x}"
    by (intro psubset_card_mono) (simp_all add: finite_ids_upto)
  then show ?case by (simp add: ids)
qed

declare sync_loop.simps [simp del]

section \<open>Frame: the operations leave the arrays alone\<close>

lemma same_arrays_refl: "same_arrays a a"
  by (simp add: same_arrays_def)

lemma same_arrays_trans: "same_arrays a b \<Longrightarrow> same_arrays b c \<Longrightarrow> same_arrays a c"
  by (simp add: same_arrays_def)

lemma same_arrays_length: "same_arrays a b \<Longrightarrow> length (m_sets a) = length (m_sets b)"
  unfolding same_arrays_def by (metis length_map)

lemma same_arrays_wf:
  assumes "same_arrays a b" and "list_all pair_wf (m_sets b)"
  shows "list_all pair_wf (m_sets a)"
proof -
  have len: "length (m_sets a) = length (m_sets b)" by (rule same_arrays_length[OF assms(1)])
  have "pair_wf (m_sets a ! k)" if k: "k < length (m_sets a)" for k
  proof -
    have "endIt (m_sets a ! k) = endIt (m_sets b ! k)"
      using assms(1) k len unfolding same_arrays_def by (metis nth_map)
    moreover have "base (current (m_sets a ! k)) = base (current (m_sets b ! k))"
    proof -
      have "map (\<lambda>p. base (current p)) (m_sets a) ! k = map (\<lambda>p. base (current p)) (m_sets b) ! k"
        using assms(1) unfolding same_arrays_def by simp
      then show ?thesis using k len by simp
    qed
    moreover have "pair_wf (m_sets b ! k)"
      using assms(2) k len by (simp add: list_all_length)
    ultimately show ?thesis by (simp add: pair_wf_def)
  qed
  then show ?thesis by (simp add: list_all_length)
qed

lemma map_update_same: "g y = g (xs ! N) \<Longrightarrow> map g (xs[N := y]) = map g xs"
proof (cases "N < length xs")
  case True
  assume "g y = g (xs ! N)"
  with True show ?thesis by (simp add: map_update list_update_same_conv)
next
  case False
  then show ?thesis by (simp add: list_update_beyond)
qed

lemma same_arrays_update:
  "endIt p = endIt (m_sets it ! N) \<Longrightarrow> base (current p) = base (current (m_sets it ! N)) \<Longrightarrow>
   same_arrays (it\<lparr>m_sets := (m_sets it)[N := p]\<rparr>) it"
  by (simp add: same_arrays_def map_update_same)

lemma same_arrays_set_current:
  "base c = base (current (m_sets it ! N)) \<Longrightarrow> same_arrays (set_current N c it) it"
  unfolding set_current_def by (rule same_arrays_update) simp_all

lemma same_arrays_max [simp]: "same_arrays (it\<lparr>m_max := m\<rparr>) it' = same_arrays it it'"
  by (simp add: same_arrays_def)

lemma advance_to_end_same:
  "list_all pair_wf (m_sets it) \<Longrightarrow> N < length (m_sets it) \<Longrightarrow> same_arrays (advance_to_end N it) it"
proof (induction N arbitrary: it)
  case 0
  then have "pair_wf (m_sets it ! 0)" by (simp add: list_all_length)
  then show ?case by (simp add: same_arrays_set_current pair_wf_def)
next
  case (Suc N)
  let ?it1 = "set_current (Suc N) (endIt (m_sets it ! Suc N)) it"
  from Suc.prems have "pair_wf (m_sets it ! Suc N)" by (simp add: list_all_length)
  then have s1: "same_arrays ?it1 it" by (simp add: same_arrays_set_current pair_wf_def)
  have wf1: "list_all pair_wf (m_sets ?it1)" by (rule same_arrays_wf[OF s1 Suc.prems(1)])
  have "N < length (m_sets ?it1)" using same_arrays_length[OF s1] Suc.prems(2) by simp
  from Suc.IH[OF wf1 this] s1 show ?case by (simp add: same_arrays_trans)
qed

lemma advance_all_to_end_same:
  "list_all pair_wf (m_sets it) \<Longrightarrow> m_sets it \<noteq> [] \<Longrightarrow> same_arrays (advance_all_to_end it) it"
proof -
  assume wf: "list_all pair_wf (m_sets it)" and ne: "m_sets it \<noteq> []"
  from ne have "length (m_sets it) - 1 < length (m_sets it)"
    by (cases "m_sets it") simp_all
  from advance_to_end_same[OF wf this] show ?thesis
    by (simp add: advance_all_to_end_def max_index_def)
qed

lemma advance_until_same:
  "advance_until f N s it = Inr (b, it') \<Longrightarrow> list_all pair_wf (m_sets it) \<Longrightarrow>
   m_sets it \<noteq> [] \<Longrightarrow> same_arrays it' it"
proof (induction f N s it rule: advance_until.induct)
  case (1 f N it)
  then show ?case by (simp add: same_arrays_refl)
next
  case (2 f N it)
  from "2.prems"(1) obtain hit p where
    w: "advance_while_less f (m_max it) (m_sets it ! N) = Inr (hit, p)"
    by (auto split: sum.splits)
  define it1 where "it1 = it\<lparr>m_sets := (m_sets it)[N := p]\<rparr>"
  have s1: "same_arrays it1 it"
    unfolding it1_def using advance_while_less_frame[OF w] by (intro same_arrays_update) simp_all
  have wf1: "list_all pair_wf (m_sets it1)" by (rule same_arrays_wf[OF s1 "2.prems"(2)])
  have ne1: "m_sets it1 \<noteq> []" using "2.prems"(3) by (simp add: it1_def)
  show ?case
  proof (cases hit)
    case True
    with "2.prems"(1) w have "it' = advance_all_to_end it1" by (simp add: it1_def)
    with advance_all_to_end_same[OF wf1 ne1] s1 show ?thesis by (simp add: same_arrays_trans)
  next
    case False
    with "2.prems"(1) w obtain x where d: "deref (current p) = Inr x"
      by (auto simp: Let_def split: sum.splits)
    show ?thesis
    proof (cases "m_max it1 < get_element_id f x")
      case True
      with "2.prems"(1) w False d have "it' = it1\<lparr>m_max := get_element_id f x\<rparr>"
        by (simp add: it1_def)
      with s1 show ?thesis by simp
    next
      case nlt: False
      with "2.prems"(1) w False d have r: "advance_until f (N - 1) (N = 0) it1 = Inr (b, it')"
        by (simp add: it1_def)
      have "same_arrays it' it1"
        using "2.IH"[OF w refl refl False d] nlt r wf1 ne1 by (simp add: it1_def)
      from this s1 show ?thesis by (rule same_arrays_trans)
    qed
  qed
qed

lemma sync_loop_same:
  "sync_loop f it = Inr it' \<Longrightarrow> list_all pair_wf (m_sets it) \<Longrightarrow>
   m_sets it \<noteq> [] \<Longrightarrow> same_arrays it' it"
proof (induction f it rule: sync_loop.induct)
  case (1 f it)
  from "1.prems"(1) obtain b it1 where
    a: "advance_until f (max_index it) (has_single_set it) it = Inr (b, it1)"
    by (subst (asm) sync_loop.simps) (auto split: sum.splits)
  note s1 = advance_until_same[OF a "1.prems"(2,3)]
  show ?case
  proof (cases b)
    case True
    with "1.prems"(1) a have "it' = it1" by (subst (asm) sync_loop.simps) simp
    with s1 show ?thesis by simp
  next
    case False
    with "1.prems"(1) a have r: "sync_loop f it1 = Inr it'" by (subst (asm) sync_loop.simps) simp
    have wf1: "list_all pair_wf (m_sets it1)" by (rule same_arrays_wf[OF s1 "1.prems"(2)])
    have ne1: "m_sets it1 \<noteq> []" using same_arrays_length[OF s1] "1.prems"(3) by auto
    from "1.IH"[OF a refl False r wf1 ne1] s1 show ?thesis by (rule same_arrays_trans)
  qed
qed

lemma incr_base: "incr c = Inr c' \<Longrightarrow> base c' = base c \<and> pos c' = Suc (pos c) \<and> pos c < length (base c)"
  by (auto simp: incr_def split: if_splits)

lemma operator_inc_same:
  assumes "operator_inc f it = Inr it'" and wf: "list_all pair_wf (m_sets it)" and ne: "m_sets it \<noteq> []"
  shows "same_arrays it' it"
proof -
  from assms(1) obtain c where c: "incr (current (m_sets it ! max_index it)) = Inr c"
    by (auto simp: operator_inc_def split: sum.splits)
  define it1 where "it1 = set_current (max_index it) c it"
  have s1: "same_arrays it1 it"
    unfolding it1_def using incr_base[OF c] by (intro same_arrays_set_current) simp
  have wf1: "list_all pair_wf (m_sets it1)" by (rule same_arrays_wf[OF s1 wf])
  have ne1: "m_sets it1 \<noteq> []" using same_arrays_length[OF s1] ne by auto
  note eq = assms(1)[unfolded operator_inc_def c sum.case Let_def, folded it1_def]
  show ?thesis
  proof (cases "max_index it > 0 \<and> c = endIt (m_sets it1 ! max_index it)")
    case True
    with eq have "it' = advance_all_to_end it1" by simp
    with advance_all_to_end_same[OF wf1 ne1] s1 show ?thesis by (simp add: same_arrays_trans)
  next
    case False
    note eq2 = eq[unfolded if_not_P[OF False]]
    show ?thesis
    proof (cases "max_index it > 0")
      case True
      with eq2 obtain x where "sync_loop f (it1\<lparr>m_max := get_element_id f x\<rparr>) = Inr it'"
        by (cases "deref c") simp_all
      from sync_loop_same[OF this] wf1 ne1
      have "same_arrays it' it1" by (simp add: same_arrays_def)
      from this s1 show ?thesis by (rule same_arrays_trans)
    next
      case False
      with eq2 have "it' = it1" by simp
      with s1 show ?thesis by simp
    qed
  qed
qed

lemma start_same:
  assumes "start f it = Inr it'" and wf: "list_all pair_wf (m_sets it)" and ne: "m_sets it \<noteq> []"
  shows "same_arrays it' it"
proof (cases "max_index it \<noteq> 0 \<and> any_at_end it")
  case True
  with assms(1) have "it' = advance_all_to_end it" by (simp add: start_def)
  with advance_all_to_end_same[OF wf ne] show ?thesis by simp
next
  case False
  note eq = assms(1)[unfolded start_def if_not_P[OF False]]
  then obtain x where d: "deref (current (m_sets it ! max_index it)) = Inr x"
    by (cases "deref (current (m_sets it ! max_index it))") simp_all
  define it1 where "it1 = it\<lparr>m_max := Id x\<rparr>"
  note eq2 = eq[unfolded d sum.case Let_def, folded it1_def]
  then obtain b it2 where
    a: "advance_until f (max_index it1 - 1) (has_single_set it1) it1 = Inr (b, it2)"
    by (cases "advance_until f (max_index it1 - 1) (has_single_set it1) it1") auto
  have s2: "same_arrays it2 it"
    using advance_until_same[OF a] wf ne by (simp add: it1_def same_arrays_def)
  show ?thesis
  proof (cases b)
    case True
    with eq2 a have "it' = it2" by simp
    with s2 show ?thesis by simp
  next
    case nb: False
    with eq2 a have r: "operator_inc f it2 = Inr it'" by simp
    have wf2: "list_all pair_wf (m_sets it2)" by (rule same_arrays_wf[OF s2 wf])
    have ne2: "m_sets it2 \<noteq> []" using same_arrays_length[OF s2] ne by auto
    from operator_inc_same[OF r wf2 ne2] s2 show ?thesis by (rule same_arrays_trans)
  qed
qed

lemma same_arrays_iff: "same_arrays a b = (ends a = ends b \<and> arrays a = arrays b)"
  by (simp add: same_arrays_def arrays_def ends_def)

lemma advances_same:
  "advances f n it = Inr it' \<Longrightarrow> list_all pair_wf (m_sets it) \<Longrightarrow> m_sets it \<noteq> [] \<Longrightarrow>
   same_arrays it' it"
proof (induction n arbitrary: it)
  case 0
  then show ?case by (simp add: same_arrays_refl)
next
  case (Suc n)
  from Suc.prems(1) obtain it1 where o: "operator_inc f it = Inr it1" and r: "advances f n it1 = Inr it'"
    by (auto split: sum.splits)
  note s1 = operator_inc_same[OF o Suc.prems(2,3)]
  have wf1: "list_all pair_wf (m_sets it1)" by (rule same_arrays_wf[OF s1 Suc.prems(2)])
  have ne1: "m_sets it1 \<noteq> []" using same_arrays_length[OF s1] Suc.prems(3) by auto
  from Suc.IH[OF r wf1 ne1] s1 show ?case by (rule same_arrays_trans)
qed

lemma construct_same:
  assumes "make_union_set_iterator f args = Inr it" and "list_all pair_wf args" and "args \<noteq> []"
  shows "arrays it = map (\<lambda>p. base (current p)) args \<and> ends it = map endIt args \<and>
         list_all pair_wf (m_sets it) \<and> m_sets it \<noteq> []"
proof -
  let ?it0 = "\<lparr>m_max = 0, m_sets = args\<rparr>"
  have s: "same_arrays it ?it0"
    using start_same[of f ?it0 it] assms by (simp add: make_union_set_iterator_def)
  have "list_all pair_wf (m_sets it)" using same_arrays_wf[OF s] assms(2) by simp
  moreover have "m_sets it \<noteq> []" using same_arrays_length[OF s] assms(3) by auto
  ultimately show ?thesis using s by (simp add: same_arrays_iff arrays_def ends_def)
qed

lemma operator_deref_pointers:
  "operator_deref it = Inl DerefEnd \<or> operator_deref it = Inr (map current (m_sets it))"
proof -
  have "collect (map (\<lambda>p. address_of_deref (current p)) ps) = Inl DerefEnd \<or>
        collect (map (\<lambda>p. address_of_deref (current p)) ps) = Inr (map current ps)" for ps :: "'a union_set_iterator_pair list"
  proof (induction ps)
    case Nil
    then show ?case by simp
  next
    case (Cons p ps)
    then show ?case
      by (cases "deref (current p)") (auto simp: address_of_deref_def deref_def split: if_splits)
  qed
  then show ?thesis by (simp add: operator_deref_def)
qed

text \<open>
  Claim C10. No core operation modifies the underlying sequences or a record stored in
  them. Whichever of \<open>begin\<close>, \<open>end\<close> and \<open>find\<close> constructs the iterator, and after any
  number of advances, the cursors of the iterator still point into exactly the sequences
  the union set was built over, with their contents as they were, and the end cursors are
  the ends of these sequences: an advance has changed nothing but the current positions
  and \<open>max_\<close>. Dereferencing returns the current positions as the pointers of a fresh
  view (or fails at an end cursor) and writes nothing.
\<close>

theorem core_operations_frame:
  assumes ne: "sets \<noteq> []"
    and mk: "mk \<in> {union_begin f, union_end f, union_find f key}"
    and c: "mk sets = Inr it0"
    and a: "advances f n it0 = Inr it"
  shows "arrays it = sets \<and> ends it = map flat_set_end sets \<and>
         operator_deref it \<in> {Inl DerefEnd, Inr (map current (m_sets it))}"
proof -
  have c0: "arrays it0 = sets \<and> ends it0 = map flat_set_end sets \<and>
         list_all pair_wf (m_sets it0) \<and> m_sets it0 \<noteq> []"
  proof -
    consider "mk = union_begin f" | "mk = union_end f" | "mk = union_find f key" using mk by auto
    then show ?thesis
    proof cases
      case 1
      let ?args = "map (\<lambda>s. make_union_set_iterator_pair (flat_set_begin s) (flat_set_end s)) sets"
      have "list_all pair_wf ?args"
        by (simp add: list_all_iff pair_wf_def make_union_set_iterator_pair_def flat_set_begin_def flat_set_end_def)
      from construct_same[OF _ this, of f it0] c 1 ne show ?thesis
        by (simp add: union_begin_def make_union_set_iterator_pair_def flat_set_begin_def comp_def)
    next
      case 2
      let ?args = "map (\<lambda>s. make_union_set_iterator_pair (flat_set_end s) (flat_set_end s)) sets"
      have "list_all pair_wf ?args"
        by (simp add: list_all_iff pair_wf_def make_union_set_iterator_pair_def)
      from construct_same[OF _ this, of f it0] c 2 ne show ?thesis
        by (simp add: union_end_def make_union_set_iterator_pair_def flat_set_end_def comp_def)
    next
      case 3
      let ?args = "map (\<lambda>s. make_union_set_iterator_pair (flat_set_find f s key) (flat_set_end s)) sets"
      have "list_all pair_wf ?args"
        by (simp add: list_all_iff pair_wf_def make_union_set_iterator_pair_def flat_set_find_def flat_set_end_def)
      from construct_same[OF _ this, of f it0] c 3 ne show ?thesis
        by (simp add: union_find_def make_union_set_iterator_pair_def flat_set_find_def comp_def)
    qed
  qed
  from advances_same[OF a] c0 have "same_arrays it it0" by simp
  with c0 have "arrays it = sets \<and> ends it = map flat_set_end sets" by (simp add: same_arrays_iff)
  with operator_deref_pointers[of it] show ?thesis by auto
qed

lemma begin_AC:
  "union_begin Id [seqA, seqC] = Inr \<lparr>m_max = 2, m_sets = [at_pos seqA 1, at_pos seqC 0]\<rparr>"
  by code_simp

lemma advance_AC:
  "advances Id 1 \<lparr>m_max = 2, m_sets = [at_pos seqA 1, at_pos seqC 0]\<rparr>
     = Inr \<lparr>m_max = 3, m_sets = [at_pos seqA 2, at_pos seqC 1]\<rparr>"
  by code_simp

theorem core_operations_frame_witness:
  "union_begin Id [seqA, seqC] = Inr \<lparr>m_max = 2, m_sets = [at_pos seqA 1, at_pos seqC 0]\<rparr> \<and>
   advances Id 1 \<lparr>m_max = 2, m_sets = [at_pos seqA 1, at_pos seqC 0]\<rparr>
     = Inr \<lparr>m_max = 3, m_sets = [at_pos seqA 2, at_pos seqC 1]\<rparr> \<and>
   arrays \<lparr>m_max = 3, m_sets = [at_pos seqA 2, at_pos seqC 1]\<rparr> = [seqA, seqC] \<and>
   ends \<lparr>m_max = 3, m_sets = [at_pos seqA 2, at_pos seqC 1]\<rparr> = map flat_set_end [seqA, seqC] \<and>
   operator_deref \<lparr>m_max = 3, m_sets = [at_pos seqA 2, at_pos seqC 1]\<rparr>
     \<in> {Inl DerefEnd, Inr (map current [at_pos seqA 2, at_pos seqC 1])}"
  using core_operations_frame[of "[seqA, seqC]" "union_begin Id" Id 0, OF _ _ begin_AC advance_AC]
    begin_AC advance_AC by simp

section \<open>Subset views\<close>

lemma tuple_has_type_iff: "tuple_has_type T Types = (T \<in> set Types)"
  by (induction Types) auto

lemma is_subset_iff: "is_subset TTuple Types = (set Types \<subseteq> set TTuple)"
  by (induction Types) (auto simp: tuple_has_type_iff)

lemma std_get_distinct:
  "distinct (map fst x) \<Longrightarrow> T \<in> fst ` set x \<Longrightarrow> \<exists>p. std_get T x = Some p \<and> (T, p) \<in> set x"
proof (induction x)
  case Nil
  then show ?case by simp
next
  case (Cons c x)
  show ?case
  proof (cases "fst c = T")
    case True
    with Cons.prems have "T \<notin> fst ` set x" by simp
    then have "filter (\<lambda>c. fst c = T) x = []"
      by (force simp: filter_empty_conv)
    with True show ?thesis by (cases c) (auto simp: std_get_def)
  next
    case False
    with Cons show ?thesis by (auto simp: std_get_def)
  qed
qed

lemma components_total:
  "distinct (map fst x) \<Longrightarrow> set Types \<subseteq> fst ` set x \<Longrightarrow> \<exists>y. components Types x = Some y"
proof (induction Types)
  case Nil
  then show ?case by simp
next
  case (Cons T Types)
  then obtain p where "std_get T x = Some p" using std_get_distinct[of x T] by auto
  moreover from Cons obtain y where "components Types x = Some y" by auto
  ultimately show ?case by simp
qed

lemma components_fst: "components Types x = Some y \<Longrightarrow> map fst y = Types"
  by (induction Types arbitrary: y) (auto split: option.splits)

lemma components_get:
  "components Types x = Some y \<Longrightarrow> distinct Types \<Longrightarrow> T \<in> set Types \<Longrightarrow>
   std_get T y = std_get T x"
proof (induction Types arbitrary: y)
  case Nil
  then show ?case by simp
next
  case (Cons U Types)
  from Cons.prems(1) obtain p cs where
    p: "std_get U x = Some p" and cs: "components Types x = Some cs" and y: "y = (U, p) # cs"
    by (auto split: option.splits)
  show ?case
  proof (cases "T = U")
    case True
    from Cons.prems(2) components_fst[OF cs] have "U \<notin> fst ` set cs"
      by (metis distinct.simps(2) list.set_map)
    then have "filter (\<lambda>c. fst c = U) cs = []" by (auto simp: filter_empty_conv)
    with True p y show ?thesis by (simp add: std_get_def)
  next
    case False
    with Cons.prems have "T \<in> set Types" "distinct Types" by auto
    from Cons.IH[OF cs this(2) this(1)] False y show ?thesis by (simp add: std_get_def)
  qed
qed

text \<open>
  Claim C9. For a composite view \<open>v\<close> over a type set, a subset \<open>S'\<close> of that type set
  and a type \<open>T\<close> of \<open>S'\<close>: the view over \<open>S'\<close> constructed from \<open>v\<close> exists, and
  \<open>get<T>\<close> on it returns the reference that \<open>get<T>\<close> returns on \<open>v\<close>, the same
  underlying record; the conversion copies the stored pointers and no record.
\<close>

theorem subset_view_same_record:
  assumes "distinct (map fst v)" and "distinct S'" and "set S' \<subseteq> fst ` set v" and "T \<in> set S'"
  shows "\<exists>v' r. union_set_el_from_superset S' v = Some v' \<and> get T v' = Some r \<and> get T v = Some r
           \<and> map fst v' = S'"
proof -
  have sub: "is_subset (map fst v) S'" using assms(3) by (simp add: is_subset_iff)
  from components_total[OF assms(1,3)] obtain v' where v': "components S' v = Some v'" by blast
  from std_get_distinct[OF assms(1)] assms(3,4) obtain r where r: "std_get T v = Some r" by blast
  from components_get[OF v' assms(2,4)] r have "std_get T v' = Some r" by simp
  with sub v' r components_fst[OF v'] show ?thesis
    by (simp add: union_set_el_from_superset_def get_def)
qed

theorem subset_view_same_record_witness:
  "\<exists>v' r. union_set_el_from_superset [Transform, Character]
            [(Transform, 10::nat), (RigidBody, 20), (Character, 30)] = Some v' \<and>
          get Character v' = Some r \<and>
          get Character [(Transform, 10::nat), (RigidBody, 20), (Character, 30)] = Some r \<and>
          map fst v' = [Transform, Character]"
  using subset_view_same_record[of "[(Transform, 10::nat), (RigidBody, 20), (Character, 30)]"
      "[Transform, Character]" Character]
  by simp

section \<open>The iterator over two or more sorted sets\<close>

text \<open>
  The operations are followed on the positions of the cursors. First the inner loop of
  \<open>advance_until\<close> on one cursor.
\<close>

lemma deref_at_pos: "i < length s \<Longrightarrow> deref (current (at_pos s i)) = Inr (s ! i)"
  by (simp add: at_pos_def deref_def)

lemma incr_at_pos: "i < length s \<Longrightarrow> incr (current (at_pos s i)) = Inr \<lparr>base = s, pos = Suc i\<rparr>"
  by (simp add: at_pos_def incr_def)

lemma at_pos_current: "(at_pos s i)\<lparr>current := \<lparr>base = s, pos = j\<rparr>\<rparr> = at_pos s j"
  by (simp add: at_pos_def)

lemma at_pos_is_end: "(\<lparr>base = s, pos = j\<rparr> = endIt (at_pos s i)) = (j = length s)"
  by (auto simp: at_pos_def flat_set_end_def)

lemma advance_while_less_stop: "i < length s \<Longrightarrow> \<not> f (s ! i) < m \<Longrightarrow> advance_while_less f m (at_pos s i) = Inr (False, at_pos s i)"
  apply (subst advance_while_less.simps)
  apply (simp add: deref_at_pos get_element_id_def)
  done

lemma advance_while_less_hit_end: "Suc i = length s \<Longrightarrow> f (s ! i) < m \<Longrightarrow> advance_while_less f m (at_pos s i) = Inr (True, at_pos s (Suc i))"
  apply (subst advance_while_less.simps)
  apply (simp add: deref_at_pos incr_at_pos get_element_id_def at_pos_is_end at_pos_current)
  done

lemma advance_while_less_step: "Suc i < length s \<Longrightarrow> f (s ! i) < m \<Longrightarrow> advance_while_less f m (at_pos s i) = advance_while_less f m (at_pos s (Suc i))"
  apply (subst advance_while_less.simps)
  apply (simp add: deref_at_pos incr_at_pos get_element_id_def at_pos_is_end at_pos_current)
  done

lemma advance_while_less_at_pos:
  assumes "i < length s"
  shows "\<exists>hit j. advance_while_less f m (at_pos s i) = Inr (hit, at_pos s j) \<and> i \<le> j \<and>
           (\<forall>l. i \<le> l \<and> l < j \<longrightarrow> f (s ! l) < m) \<and>
           (if hit then j = length s else j < length s \<and> \<not> f (s ! j) < m)"
  using assms
proof (induction "length s - i" arbitrary: i)
  case 0
  then show ?case by simp
next
  case (Suc d)
  show ?case
  proof (cases "f (s ! i) < m")
    case False
    from advance_while_less_stop[of i s f m] False Suc.prems
    show ?thesis by (intro exI[of _ False] exI[of _ i]) simp
  next
    case True
    show ?thesis
    proof (cases "Suc i = length s")
      case e: True
      have "\<forall>l. i \<le> l \<and> l < Suc i \<longrightarrow> f (s ! l) < m"
        using True by (auto simp: less_Suc_eq_le)
      with advance_while_less_hit_end[of i s f m] True e
      show ?thesis by (intro exI[of _ True] exI[of _ "Suc i"]) simp
    next
      case ne: False
      with Suc.prems have lt: "Suc i < length s" by simp
      have step: "advance_while_less f m (at_pos s i) = advance_while_less f m (at_pos s (Suc i))"
        using advance_while_less_step[of i s f m] lt True by simp
      from Suc.hyps(2) have "d = length s - Suc i" by simp
      from Suc.hyps(1)[OF this lt] obtain hit j where
        r: "advance_while_less f m (at_pos s (Suc i)) = Inr (hit, at_pos s j)" "Suc i \<le> j"
          "\<forall>l. Suc i \<le> l \<and> l < j \<longrightarrow> f (s ! l) < m"
          "if hit then j = length s else j < length s \<and> \<not> f (s ! j) < m"
        by blast
      have "\<forall>l. i \<le> l \<and> l < j \<longrightarrow> f (s ! l) < m"
      proof (intro allI impI)
        fix l assume "i \<le> l \<and> l < j"
        then show "f (s ! l) < m" using True r(3) by (cases "l = i") auto
      qed
      moreover have "i \<le> j" using r(2) by simp
      ultimately show ?thesis using r(1,4) step by (intro exI[of _ hit] exI[of _ j]) simp
    qed
  qed
qed

lemma state_simps [simp]:
  "m_max (state ss m P) = m"
  "length (m_sets (state ss m P)) = min (length ss) (length P)"
  "(state ss m P)\<lparr>m_max := m'\<rparr> = state ss m' P"
  by (simp_all add: state_def)

lemma state_nth:
  "k < length ss \<Longrightarrow> length P = length ss \<Longrightarrow> m_sets (state ss m P) ! k = at_pos (ss ! k) (P ! k)"
  by (simp add: state_def)

lemma state_update:
  assumes "N < length ss" and "length P = length ss"
  shows "(state ss m P)\<lparr>m_sets := (m_sets (state ss m P))[N := at_pos (ss ! N) j]\<rparr> = state ss m (P[N := j])"
proof -
  have "(map (\<lambda>(s, j). at_pos s j) (zip ss P))[N := at_pos (ss ! N) j]
        = map (\<lambda>(s, j). at_pos s j) (zip ss (P[N := j]))"
    using assms by (intro nth_equalityI) (auto simp: nth_list_update)
  then show ?thesis by (simp add: state_def)
qed

lemma state_set_current:
  assumes "N < length ss" and "length P = length ss"
  shows "set_current N \<lparr>base = ss ! N, pos = j\<rparr> (state ss m P) = state ss m (P[N := j])"
  using state_update[OF assms, of m j] assms
  by (simp add: set_current_def state_nth at_pos_current)

lemma state_max_index: "length P = length ss \<Longrightarrow> max_index (state ss m P) = length ss - 1"
  by (simp add: max_index_def)

lemma state_single: "length P = length ss \<Longrightarrow> has_single_set (state ss m P) = (length ss = 1)"
  by (simp add: has_single_set_def)

lemma length_ends_upto [simp]: "length (ends_upto N ss P) = length P"
  by (induction N arbitrary: P) simp_all

lemma ends_upto_nth:
  "N < length P \<Longrightarrow> k < length P \<Longrightarrow>
   ends_upto N ss P ! k = (if k \<le> N then length (ss ! k) else P ! k)"
proof (induction N arbitrary: P)
  case 0
  then show ?case by (simp add: nth_list_update)
next
  case (Suc N)
  then show ?case by (auto simp: nth_list_update le_Suc_eq)
qed

lemma ends_upto_all:
  assumes "length P = length ss" and "ss \<noteq> []"
  shows "ends_upto (length ss - 1) ss P = map length ss"
proof (rule nth_equalityI)
  show "length (ends_upto (length ss - 1) ss P) = length (map length ss)" using assms by simp
next
  fix k assume "k < length (ends_upto (length ss - 1) ss P)"
  then have k: "k < length ss" using assms by simp
  have n: "length ss - 1 < length P" using assms by (cases ss) simp_all
  have kP: "k < length P" using k assms by simp
  have kn: "k \<le> length ss - 1" using k by simp
  have "ends_upto (length ss - 1) ss P ! k = length (ss ! k)"
    unfolding ends_upto_nth[OF n kP] using kn by simp
  then show "ends_upto (length ss - 1) ss P ! k = map length ss ! k"
    using k by simp
qed

lemma advance_to_end_state:
  "N < length ss \<Longrightarrow> length P = length ss \<Longrightarrow>
   advance_to_end N (state ss m P) = state ss m (ends_upto N ss P)"
proof (induction N arbitrary: P)
  case 0
  then show ?case
    using state_set_current[of 0 ss P "length (ss ! 0)" m]
    by (simp add: state_nth at_pos_def flat_set_end_def)
next
  case (Suc N)
  have "set_current (Suc N) (endIt (m_sets (state ss m P) ! Suc N)) (state ss m P)
        = state ss m (P[Suc N := length (ss ! Suc N)])"
    using state_set_current[of "Suc N" ss P "length (ss ! Suc N)" m] Suc.prems
    by (simp add: state_nth at_pos_def flat_set_end_def)
  with Suc show ?case by simp
qed

lemma advance_all_to_end_state:
  "ss \<noteq> [] \<Longrightarrow> length P = length ss \<Longrightarrow>
   advance_all_to_end (state ss m P) = state ss m (map length ss)"
  using advance_to_end_state[of "length ss - 1" ss P m] ends_upto_all[of P ss]
  by (cases ss) (simp_all add: advance_all_to_end_def state_max_index)

lemma at_end_state:
  "N < length ss \<Longrightarrow> length P = length ss \<Longrightarrow>
   at_end N (state ss m P) = (\<exists>k\<le>N. P ! k = length (ss ! k))"
proof (induction N)
  case 0
  then show ?case by (auto simp: state_nth at_pos_def flat_set_end_def)
next
  case (Suc N)
  then show ?case by (auto simp: state_nth at_pos_def flat_set_end_def le_Suc_eq)
qed

lemma any_at_end_state:
  assumes "ss \<noteq> []" and "length P = length ss"
    and that: "\<forall>k<length ss. P ! k \<le> length (ss ! k)"
  shows "any_at_end (state ss m P) = (\<not> live ss P)"
proof -
  have "length ss - 1 < length ss" using assms by (cases ss) simp_all
  from at_end_state[OF this assms(2)]
  have "any_at_end (state ss m P) = (\<exists>k\<le>length ss - 1. P ! k = length (ss ! k))"
    using assms by (simp add: any_at_end_def state_max_index)
  also have "\<dots> = (\<exists>k<length ss. P ! k = length (ss ! k))"
    using assms by (cases ss) (auto simp: less_Suc_eq_le)
  also have "\<dots> = (\<not> live ss P)" using that by (auto simp: live_def dest: le_neq_implies_less)
  finally show ?thesis by simp
qed

text \<open>
  Skipping records whose identifier is below a lower bound of the common identifiers
  loses none of them; in a sorted set the identifier under the cursor is such a bound.
\<close>

lemma mem_ids_drop:
  "(c \<in> f ` set (drop i s)) = (\<exists>l. i \<le> l \<and> l < length s \<and> f (s ! l) = c)"
proof
  assume "c \<in> f ` set (drop i s)"
  then obtain k where k: "k < length (drop i s)" "f (drop i s ! k) = c"
    by (auto simp: in_set_conv_nth)
  then have "i \<le> i + k \<and> i + k < length s \<and> f (s ! (i + k)) = c" by simp
  then show "\<exists>l. i \<le> l \<and> l < length s \<and> f (s ! l) = c" by blast
next
  assume "\<exists>l. i \<le> l \<and> l < length s \<and> f (s ! l) = c"
  then obtain l where l: "i \<le> l" "l < length s" "f (s ! l) = c" by blast
  then have "l - i < length (drop i s)" "drop i s ! (l - i) = s ! l" by simp_all
  then have "s ! l \<in> set (drop i s)" by (metis nth_mem)
  with l(3) show "c \<in> f ` set (drop i s)" by blast
qed

lemma strictly_sorted_nth:
  assumes "strictly_sorted f ss" and "k < length ss" and "i < l" and "l < length (ss ! k)"
  shows "f (ss ! k ! i) < f (ss ! k ! l)"
proof -
  have "sorted_wrt (<) (map f (ss ! k))" using assms(1,2) by (simp add: strictly_sorted_def)
  from sorted_wrt_nth_less[OF this, of i l] assms(3,4) show ?thesis by simp
qed

lemma rest_ids_skip:
  assumes "N < length ss" and "length P = length ss" and "P ! N \<le> j"
    and skipped: "\<forall>l. P ! N \<le> l \<and> l < j \<longrightarrow> f (ss ! N ! l) < m"
    and lb: "\<forall>c\<in>rest_ids f ss P. m \<le> c"
  shows "rest_ids f ss (P[N := j]) = rest_ids f ss P"
proof (intro set_eqI iffI)
  fix c assume c: "c \<in> rest_ids f ss (P[N := j])"
  show "c \<in> rest_ids f ss P"
    unfolding rest_ids_def
  proof (intro CollectI allI impI)
    fix k assume k: "k < length ss"
    show "c \<in> f ` set (drop (P ! k) (ss ! k))"
    proof (cases "k = N")
      case True
      from c k True assms(2) have "c \<in> f ` set (drop j (ss ! N))"
        by (auto simp: rest_ids_def)
      then obtain l where "j \<le> l" "l < length (ss ! N)" "f (ss ! N ! l) = c"
        unfolding mem_ids_drop by blast
      with assms(3) have "P ! N \<le> l \<and> l < length (ss ! N) \<and> f (ss ! N ! l) = c" by simp
      with True show ?thesis unfolding mem_ids_drop by blast
    next
      case False
      with c k show ?thesis by (auto simp: rest_ids_def)
    qed
  qed
next
  fix c assume c: "c \<in> rest_ids f ss P"
  then have mc: "m \<le> c" using lb by simp
  show "c \<in> rest_ids f ss (P[N := j])"
    unfolding rest_ids_def
  proof (intro CollectI allI impI)
    fix k assume k: "k < length ss"
    show "c \<in> f ` set (drop (P[N := j] ! k) (ss ! k))"
    proof (cases "k = N")
      case True
      from c assms(1) obtain l where l: "P ! N \<le> l" "l < length (ss ! N)" "f (ss ! N ! l) = c"
        by (auto simp: rest_ids_def mem_ids_drop)
      have "j \<le> l"
      proof (rule ccontr)
        assume "\<not> j \<le> l"
        with skipped l(1) have "f (ss ! N ! l) < m" by simp
        with l(3) mc show False by simp
      qed
      with l True assms(1,2) show ?thesis by (auto simp: mem_ids_drop)
    next
      case False
      with c k show ?thesis by (auto simp: rest_ids_def)
    qed
  qed
qed

lemma rest_ids_head_lower_bound:
  assumes "strictly_sorted f ss" and "N < length ss" and "P ! N < length (ss ! N)"
  shows "\<forall>c\<in>rest_ids f ss P. f (ss ! N ! (P ! N)) \<le> c"
proof
  fix c assume "c \<in> rest_ids f ss P"
  with assms(2) obtain l where l: "P ! N \<le> l" "l < length (ss ! N)" "f (ss ! N ! l) = c"
    by (auto simp: rest_ids_def mem_ids_drop)
  show "f (ss ! N ! (P ! N)) \<le> c"
  proof (cases "l = P ! N")
    case True
    with l show ?thesis by simp
  next
    case False
    with l(1) have "P ! N < l" by simp
    from strictly_sorted_nth[OF assms(1,2) this l(2)] l(3) show ?thesis by simp
  qed
qed

lemma rest_ids_at_end:
  "N < length ss \<Longrightarrow> length (ss ! N) \<le> P ! N \<Longrightarrow> rest_ids f ss P = {}"
  by (auto simp: rest_ids_def)

lemma rest_ids_heads:
  "live ss P \<Longrightarrow> heads_at f ss P m \<Longrightarrow> m \<in> rest_ids f ss P"
  unfolding rest_ids_def live_def heads_at_def mem_ids_drop by blast

lemma rest_ids_drop_head:
  assumes "strictly_sorted f ss" and "N < length ss" and "length P = length ss"
    and "P ! N < length (ss ! N)"
  shows "rest_ids f ss (P[N := Suc (P ! N)]) = rest_ids f ss P - {f (ss ! N ! (P ! N))}"
proof (intro set_eqI iffI)
  fix c assume c: "c \<in> rest_ids f ss (P[N := Suc (P ! N)])"
  from c assms(2,3) obtain l where l: "Suc (P ! N) \<le> l" "l < length (ss ! N)" "f (ss ! N ! l) = c"
    by (auto simp: rest_ids_def mem_ids_drop)
  then have "P ! N < l" by simp
  from strictly_sorted_nth[OF assms(1,2) this l(2)] l(3) have ne: "c \<noteq> f (ss ! N ! (P ! N))" by simp
  have "c \<in> rest_ids f ss P"
    unfolding rest_ids_def
  proof (intro CollectI allI impI)
    fix k assume k: "k < length ss"
    show "c \<in> f ` set (drop (P ! k) (ss ! k))"
    proof (cases "k = N")
      case True
      with l show ?thesis unfolding mem_ids_drop by (intro exI[of _ l]) simp
    next
      case False
      with c k show ?thesis by (auto simp: rest_ids_def)
    qed
  qed
  with ne show "c \<in> rest_ids f ss P - {f (ss ! N ! (P ! N))}" by simp
next
  fix c assume "c \<in> rest_ids f ss P - {f (ss ! N ! (P ! N))}"
  then have c: "c \<in> rest_ids f ss P" and ne: "c \<noteq> f (ss ! N ! (P ! N))" by simp_all
  show "c \<in> rest_ids f ss (P[N := Suc (P ! N)])"
    unfolding rest_ids_def
  proof (intro CollectI allI impI)
    fix k assume k: "k < length ss"
    show "c \<in> f ` set (drop (P[N := Suc (P ! N)] ! k) (ss ! k))"
    proof (cases "k = N")
      case True
      from c assms(2) obtain l where l: "P ! N \<le> l" "l < length (ss ! N)" "f (ss ! N ! l) = c"
        by (auto simp: rest_ids_def mem_ids_drop)
      with ne have "l \<noteq> P ! N" by auto
      with l(1) have "Suc (P ! N) \<le> l" by simp
      with l True assms(2,3) show ?thesis unfolding mem_ids_drop by (intro exI[of _ l]) simp
    next
      case False
      with c k show ?thesis by (auto simp: rest_ids_def)
    qed
  qed
qed

lemma finite_rest_ids: "ss \<noteq> [] \<Longrightarrow> finite (rest_ids f ss P)"
proof -
  assume "ss \<noteq> []"
  then have "rest_ids f ss P \<subseteq> f ` set (drop (P ! 0) (ss ! 0))"
    by (auto simp: rest_ids_def)
  then show ?thesis by (rule finite_subset) simp
qed

lemma live_update: "live ss P \<Longrightarrow> j < length (ss ! N) \<Longrightarrow> live ss (P[N := j])"
proof (cases "N < length P")
  case True
  assume "live ss P" "j < length (ss ! N)"
  with True show ?thesis by (auto simp: live_def nth_list_update)
next
  case False
  assume "live ss P"
  with False show ?thesis by (simp add: list_update_beyond)
qed

lemma rest_ids_ends: "ss \<noteq> [] \<Longrightarrow> rest_ids f ss (map length ss) = {}"
  using rest_ids_at_end[of 0 ss "map length ss" f] by (cases ss) simp_all

text \<open>
  \<open>advance_until\<close>, the loop of \<open>operator++\<close>, \<open>operator++\<close> and \<open>start()\<close> never fail on live
  cursors, keep the common identifiers that remain, and end in a settled state.
\<close>

lemma advance_until_state:
  assumes "ss \<noteq> []" and "length P = length ss" and "strictly_sorted f ss" and "live ss P"
    and "\<forall>c\<in>rest_ids f ss P. m \<le> c"
    and "if single then heads_at f ss P m
         else N < length ss \<and> (\<forall>k. N < k \<and> k < length ss \<longrightarrow> f (ss ! k ! (P ! k)) = m)"
  shows "\<exists>b m' P'. advance_until f N single (state ss m P) = Inr (b, state ss m' P') \<and>
           length P' = length ss \<and> rest_ids f ss P' = rest_ids f ss P \<and>
           (if b then (P' = map length ss \<and> rest_ids f ss P = {}) \<or>
                      (live ss P' \<and> heads_at f ss P' m' \<and> m' = m)
            else live ss P' \<and> (\<forall>c\<in>rest_ids f ss P'. m' \<le> c) \<and> m < m' \<and>
                 (\<forall>k. N < k \<longrightarrow> P' ! k = P ! k))"
  using assms
proof (induction f N single "state ss m P" arbitrary: m P rule: advance_until.induct)
  case (1 f N)
  then show ?case
    by (intro exI[of _ True] exI[of _ m] exI[of _ P]) simp
next
  case (2 f N)
  note len = "2.prems"(2) and srt = "2.prems"(3) and lv = "2.prems"(4) and lb = "2.prems"(5)
  from "2.prems"(6) have N: "N < length ss"
    and chk: "\<forall>k. N < k \<and> k < length ss \<longrightarrow> f (ss ! k ! (P ! k)) = m" by simp_all
  let ?s = "ss ! N"
  have pN: "m_sets (state ss m P) ! N = at_pos ?s (P ! N)" by (rule state_nth[OF N len])
  from lv N have i: "P ! N < length ?s" by (simp add: live_def)
  from advance_while_less_at_pos[OF i, of f m] obtain hit j where
    w: "advance_while_less f m (at_pos ?s (P ! N)) = Inr (hit, at_pos ?s j)"
    and ij: "P ! N \<le> j"
    and sk: "\<forall>l. P ! N \<le> l \<and> l < j \<longrightarrow> f (?s ! l) < m"
    and fin: "if hit then j = length ?s else j < length ?s \<and> \<not> f (?s ! j) < m"
    by blast
  let ?P1 = "P[N := j]"
  have it1: "(state ss m P)\<lparr>m_sets := (m_sets (state ss m P))[N := at_pos ?s j]\<rparr> = state ss m ?P1"
    by (rule state_update[OF N len])
  have len1: "length ?P1 = length ss" using len by simp
  have rest1: "rest_ids f ss ?P1 = rest_ids f ss P"
    by (rule rest_ids_skip[OF N len ij sk lb])
  have P1N: "?P1 ! N = j" using N len by simp
  note unfold = advance_until.simps(2)[of f N "state ss m P"]
  show ?case
  proof (cases hit)
    case True
    with fin have j: "j = length ?s" by simp
    have "advance_until f N False (state ss m P) = Inr (True, state ss m (map length ss))"
      unfolding unfold using True w pN it1 advance_all_to_end_state[OF "2.prems"(1) len1, of m]
      by (simp add: Let_def)
    moreover have "rest_ids f ss P = {}"
      using rest_ids_at_end[OF N, of ?P1 f] P1N j rest1 by simp
    moreover have "rest_ids f ss (map length ss) = {}"
      using rest_ids_at_end[OF N, of "map length ss" f] N by simp
    ultimately show ?thesis
      by (intro exI[of _ True] exI[of _ m] exI[of _ "map length ss"]) simp
  next
    case False
    with fin have j: "j < length ?s" and ge: "\<not> f (?s ! j) < m" by simp_all
    have d: "deref (current (at_pos ?s j)) = Inr (?s ! j)" by (rule deref_at_pos[OF j])
    have lv1: "live ss ?P1" by (rule live_update[OF lv j])
    show ?thesis
    proof (cases "m < f (?s ! j)")
      case True
      have "advance_until f N False (state ss m P) = Inr (False, state ss (f (?s ! j)) ?P1)"
        unfolding unfold using False True w pN it1 d
        by (simp add: Let_def get_element_id_def)
      moreover have "\<forall>c\<in>rest_ids f ss ?P1. f (?s ! j) \<le> c"
        using rest_ids_head_lower_bound[OF srt N, of ?P1] P1N j by simp
      moreover have "\<forall>k. N < k \<longrightarrow> ?P1 ! k = P ! k" by simp
      ultimately show ?thesis using len1 rest1 lv1 True
        by (intro exI[of _ False] exI[of _ "f (?s ! j)"] exI[of _ ?P1]) simp
    next
      case nlt: False
      with ge have eq: "f (?s ! j) = m" by simp
      have step: "advance_until f N False (state ss m P) = advance_until f (N - 1) (N = 0) (state ss m ?P1)"
        unfolding unfold using False nlt w pN it1 d
        by (simp add: Let_def get_element_id_def)
      have lb1: "\<forall>c\<in>rest_ids f ss ?P1. m \<le> c" using lb rest1 by simp
      have chk1: "if N = 0 then heads_at f ss ?P1 m
         else N - 1 < length ss \<and> (\<forall>k. N - 1 < k \<and> k < length ss \<longrightarrow> f (ss ! k ! (?P1 ! k)) = m)"
      proof (cases "N = 0")
        case True
        have "f (ss ! k ! (?P1 ! k)) = m" if "k < length ss" for k
          using that chk eq True N len by (cases "k = 0") (simp_all add: nth_list_update)
        with True show ?thesis by (simp add: heads_at_def)
      next
        case N0: False
        have "f (ss ! k ! (?P1 ! k)) = m" if "N - 1 < k" "k < length ss" for k
          using that chk eq N0 N len by (cases "k = N") (simp_all add: nth_list_update)
        with N0 N show ?thesis by simp
      qed
      have w': "advance_while_less f (m_max (state ss m P)) (m_sets (state ss m P) ! N)
                  = Inr (hit, at_pos ?s j)"
        using w pN by simp
      have st: "state ss m ?P1 = (state ss m P)\<lparr>m_sets := (m_sets (state ss m P))[N := at_pos ?s j]\<rparr>"
        using it1 by simp
      have nlt': "\<not> m_max (state ss m ?P1) < get_element_id f (?s ! j)"
        using nlt by (simp add: get_element_id_def)
      from "2.hyps"[OF w' refl st False d nlt' "2.prems"(1) len1 srt lv1 lb1 chk1]
      obtain b m' P' where
        r: "advance_until f (N - 1) (N = 0) (state ss m ?P1) = Inr (b, state ss m' P')"
          "length P' = length ss" "rest_ids f ss P' = rest_ids f ss ?P1"
          "if b then (P' = map length ss \<and> rest_ids f ss ?P1 = {}) \<or>
                      (live ss P' \<and> heads_at f ss P' m' \<and> m' = m)
            else live ss P' \<and> (\<forall>c\<in>rest_ids f ss P'. m' \<le> c) \<and> m < m' \<and>
                 (\<forall>k. N - 1 < k \<longrightarrow> P' ! k = ?P1 ! k)"
        by blast
      have "\<forall>k. N < k \<longrightarrow> P' ! k = P ! k" if "\<not> b"
        using that r(4) by auto
      with r step rest1 show ?thesis
        by (intro exI[of _ b] exI[of _ m'] exI[of _ P']) (auto split: if_splits)
    qed
  qed
qed

lemma sync_loop_state:
  assumes "2 \<le> length ss" and "length P = length ss" and "strictly_sorted f ss" and "live ss P"
    and "\<forall>c\<in>rest_ids f ss P. m \<le> c"
  shows "\<exists>m' P'. sync_loop f (state ss m P) = Inr (state ss m' P') \<and> length P' = length ss \<and>
           rest_ids f ss P' = rest_ids f ss P \<and> settled f ss m' P'"
  using assms
proof (induction f "state ss m P" arbitrary: m P rule: sync_loop.induct)
  case (1 f)
  note len = "1.prems"(2) and srt = "1.prems"(3) and lv = "1.prems"(4) and lb = "1.prems"(5)
  from "1.prems"(1) have ne: "ss \<noteq> []" by auto
  have mi: "max_index (state ss m P) = length ss - 1" by (rule state_max_index[OF len])
  have sg: "has_single_set (state ss m P) = False" using state_single[OF len, of m] "1.prems"(1) by simp
  have chk: "if False then heads_at f ss P m
         else length ss - 1 < length ss \<and>
              (\<forall>k. length ss - 1 < k \<and> k < length ss \<longrightarrow> f (ss ! k ! (P ! k)) = m)"
    using "1.prems"(1) by auto
  from advance_until_state[OF ne len srt lv lb chk] obtain b m1 P1 where
    a: "advance_until f (length ss - 1) False (state ss m P) = Inr (b, state ss m1 P1)"
    and len1: "length P1 = length ss" and rest1: "rest_ids f ss P1 = rest_ids f ss P"
    and post: "if b then (P1 = map length ss \<and> rest_ids f ss P = {}) \<or>
                      (live ss P1 \<and> heads_at f ss P1 m1 \<and> m1 = m)
            else live ss P1 \<and> (\<forall>c\<in>rest_ids f ss P1. m1 \<le> c) \<and> m < m1 \<and>
                 (\<forall>k. length ss - 1 < k \<longrightarrow> P1 ! k = P ! k)"
    by blast
  note unfold = sync_loop.simps[of f "state ss m P", unfolded mi sg a]
  show ?case
  proof (cases b)
    case True
    then have "sync_loop f (state ss m P) = Inr (state ss m1 P1)" unfolding unfold by simp
    moreover from True post rest1 have "settled f ss m1 P1" by (auto simp: settled_def)
    ultimately show ?thesis using len1 rest1 by blast
  next
    case False
    then have step: "sync_loop f (state ss m P) = sync_loop f (state ss m1 P1)"
      unfolding unfold by simp
    have a': "advance_until f (max_index (state ss m P)) (has_single_set (state ss m P)) (state ss m P)
                = Inr (b, state ss m1 P1)"
      using a mi sg by simp
    from False post have lv1: "live ss P1" and lb1: "\<forall>c\<in>rest_ids f ss P1. m1 \<le> c" by simp_all
    from "1.hyps"[OF a' refl False "1.prems"(1) len1 srt lv1 lb1] step rest1
    show ?thesis by auto
  qed
qed

lemma operator_inc_state:
  assumes "2 \<le> length ss" and "length P = length ss" and "strictly_sorted f ss" and "live ss P"
  shows "\<exists>m' P'. operator_inc f (state ss m P) = Inr (state ss m' P') \<and> length P' = length ss \<and>
           rest_ids f ss P'
             = rest_ids f ss P - {f (ss ! (length ss - 1) ! (P ! (length ss - 1)))} \<and>
           settled f ss m' P'"
proof -
  let ?d = "length ss - 1"
  let ?s = "ss ! ?d"
  from assms(1) have ne: "ss \<noteq> []" and d: "?d < length ss" by auto
  note len = assms(2)
  have mi: "max_index (state ss m P) = ?d" by (rule state_max_index[OF len])
  have pd: "m_sets (state ss m P) ! ?d = at_pos ?s (P ! ?d)" by (rule state_nth[OF d len])
  from assms(4) d have i: "P ! ?d < length ?s" by (simp add: live_def)
  let ?P1 = "P[?d := Suc (P ! ?d)]"
  have len1: "length ?P1 = length ss" using len by simp
  have it1: "set_current ?d \<lparr>base = ?s, pos = Suc (P ! ?d)\<rparr> (state ss m P) = state ss m ?P1"
    by (rule state_set_current[OF d len])
  have rest1: "rest_ids f ss ?P1 = rest_ids f ss P - {f (?s ! (P ! ?d))}"
    by (rule rest_ids_drop_head[OF assms(3) d len i])
  have P1d: "?P1 ! ?d = Suc (P ! ?d)" using d len by simp
  have p1d: "m_sets (state ss m ?P1) ! ?d = at_pos ?s (Suc (P ! ?d))"
    using state_nth[OF d len1, of m] P1d by simp
  have pos: "0 < ?d" using assms(1) by simp
  note unfold = operator_inc_def[of f "state ss m P", unfolded mi pd incr_at_pos[OF i] sum.case Let_def it1 p1d at_pos_is_end]
  show ?thesis
  proof (cases "Suc (P ! ?d) = length ?s")
    case True
    then have "operator_inc f (state ss m P) = Inr (state ss m (map length ss))"
      unfolding unfold using pos advance_all_to_end_state[OF ne len1, of m] by simp
    moreover have "rest_ids f ss ?P1 = {}"
      using rest_ids_at_end[OF d, of ?P1 f] P1d True by simp
    moreover have "settled f ss m (map length ss)"
      by (simp add: settled_def rest_ids_ends[OF ne])
    ultimately show ?thesis using rest1 rest_ids_ends[OF ne, of f]
      by (intro exI[of _ m] exI[of _ "map length ss"]) simp
  next
    case False
    with i have j: "Suc (P ! ?d) < length ?s" by simp
    have dr: "deref \<lparr>base = ?s, pos = Suc (P ! ?d)\<rparr> = Inr (?s ! Suc (P ! ?d))"
      using j by (simp add: deref_def)
    let ?m1 = "f (?s ! Suc (P ! ?d))"
    from False have step: "operator_inc f (state ss m P) = sync_loop f (state ss ?m1 ?P1)"
      unfolding unfold using pos dr by (simp add: get_element_id_def)
    have lv1: "live ss ?P1" by (rule live_update[OF assms(4) j])
    have lb1: "\<forall>c\<in>rest_ids f ss ?P1. ?m1 \<le> c"
      using rest_ids_head_lower_bound[OF assms(3) d, of ?P1] P1d j by simp
    from sync_loop_state[OF assms(1) len1 assms(3) lv1 lb1] step rest1
    show ?thesis by auto
  qed
qed

lemma start_state:
  assumes "2 \<le> length ss" and "length P = length ss" and "strictly_sorted f ss"
    and bounded: "\<forall>k<length ss. P ! k \<le> length (ss ! k)"
    and agree: "\<forall>x\<in>set (ss ! (length ss - 1)). f x = Id x"
  shows "\<exists>m' P'. start f (state ss m P) = Inr (state ss m' P') \<and> length P' = length ss \<and>
           rest_ids f ss P' = rest_ids f ss P \<and> settled f ss m' P'"
proof -
  define d where "d = length ss - 1"
  let ?d = d
  let ?s = "ss ! ?d"
  from assms(1) have ne: "ss \<noteq> []" and d: "?d < length ss" and pos: "?d \<noteq> 0"
    by (auto simp: d_def)
  note len = assms(2) and srt = assms(3)
  have agree: "\<forall>x\<in>set ?s. f x = Id x" using agree by (simp add: d_def)
  have mi: "max_index (state ss m' P) = ?d" for m' using state_max_index[OF len] by (simp add: d_def)
  have ae: "any_at_end (state ss m P) = (\<not> live ss P)" by (rule any_at_end_state[OF ne len bounded])
  show ?thesis
  proof (cases "live ss P")
    case False
    then have "start f (state ss m P) = Inr (state ss m (map length ss))"
      using pos advance_all_to_end_state[OF ne len, of m] by (simp add: start_def mi ae)
    moreover from False obtain k where "k < length ss" "length (ss ! k) \<le> P ! k"
      by (auto simp: live_def not_less)
    then have "rest_ids f ss P = {}" by (rule rest_ids_at_end)
    moreover have "settled f ss m (map length ss)" by (simp add: settled_def rest_ids_ends[OF ne])
    ultimately show ?thesis using rest_ids_ends[OF ne, of f]
      by (intro exI[of _ m] exI[of _ "map length ss"]) simp
  next
    case lv: True
    then have i: "P ! ?d < length ?s" using d by (simp add: live_def)
    have pd: "m_sets (state ss m P) ! ?d = at_pos ?s (P ! ?d)" by (rule state_nth[OF d len])
    let ?m1 = "f (?s ! (P ! ?d))"
    have idm: "Id (?s ! (P ! ?d)) = ?m1" using agree i by simp
    have sg: "has_single_set (state ss m' P) = False" for m'
      using state_single[OF len] assms(1) by simp
    have unfold: "start f (state ss m P) =
        (case advance_until f (?d - 1) False (state ss ?m1 P) of
           Inl e \<Rightarrow> Inl e
         | Inr (aligned, it2) \<Rightarrow> if aligned then Inr it2 else operator_inc f it2)"
      using lv idm
      by (simp add: start_def mi sg ae pd deref_at_pos[OF i] Let_def del: advance_until.simps)
    have lb: "\<forall>c\<in>rest_ids f ss P. ?m1 \<le> c"
      by (rule rest_ids_head_lower_bound[OF srt d i])
    have chk: "if False then heads_at f ss P ?m1
         else ?d - 1 < length ss \<and> (\<forall>k. ?d - 1 < k \<and> k < length ss \<longrightarrow> f (ss ! k ! (P ! k)) = ?m1)"
    proof -
      have "k = ?d" if "?d - 1 < k" "k < length ss" for k using that by (simp add: d_def)
      then show ?thesis using d by auto
    qed
    from advance_until_state[OF ne len srt lv lb chk] obtain b m2 P2 where
      a: "advance_until f (?d - 1) False (state ss ?m1 P) = Inr (b, state ss m2 P2)"
      and len2: "length P2 = length ss" and rest2: "rest_ids f ss P2 = rest_ids f ss P"
      and post: "if b then (P2 = map length ss \<and> rest_ids f ss P = {}) \<or>
                      (live ss P2 \<and> heads_at f ss P2 m2 \<and> m2 = ?m1)
            else live ss P2 \<and> (\<forall>c\<in>rest_ids f ss P2. m2 \<le> c) \<and> ?m1 < m2 \<and>
                 (\<forall>k. ?d - 1 < k \<longrightarrow> P2 ! k = P ! k)"
      by blast
    show ?thesis
    proof (cases b)
      case True
      with a have "start f (state ss m P) = Inr (state ss m2 P2)"
        unfolding unfold by (simp del: advance_until.simps)
      moreover from True post rest2 have "settled f ss m2 P2" by (auto simp: settled_def)
      ultimately show ?thesis using len2 rest2 by blast
    next
      case False
      with a have step: "start f (state ss m P) = operator_inc f (state ss m2 P2)"
        unfolding unfold by (simp del: advance_until.simps)
      from False post have lv2: "live ss P2" and lb2: "\<forall>c\<in>rest_ids f ss P2. m2 \<le> c"
        and lt: "?m1 < m2" and same: "\<forall>k. ?d - 1 < k \<longrightarrow> P2 ! k = P ! k" by simp_all
      from same pos have P2d: "P2 ! ?d = P ! ?d" by simp
      have notin: "?m1 \<notin> rest_ids f ss P2" using lb2 lt by auto
      from operator_inc_state[OF assms(1) len2 srt lv2, of m2, folded d_def] obtain m' P' where
        r: "operator_inc f (state ss m2 P2) = Inr (state ss m' P')" "length P' = length ss"
          "rest_ids f ss P' = rest_ids f ss P2 - {f (?s ! (P2 ! ?d))}" "settled f ss m' P'"
        by blast
      from r(3) P2d notin rest2 have "rest_ids f ss P' = rest_ids f ss P" by simp
      with r step show ?thesis by auto
    qed
  qed
qed

lemma construction_args:
  "map (\<lambda>s. make_union_set_iterator_pair \<lparr>base = s, pos = g s\<rparr> (flat_set_end s)) ss
     = map (\<lambda>(s, j). at_pos s j) (zip ss (map g ss))"
  by (induction ss) (simp_all add: at_pos_def make_union_set_iterator_pair_def)

lemma union_begin_state: "union_begin f ss = start f (state ss 0 (map (\<lambda>s. 0) ss))"
  using construction_args[of "\<lambda>s. 0" ss]
  by (simp add: union_begin_def make_union_set_iterator_def state_def flat_set_begin_def)

lemma union_end_state: "union_end f ss = start f (state ss 0 (map length ss))"
  using construction_args[of length ss]
  by (simp add: union_end_def make_union_set_iterator_def state_def flat_set_end_def)

lemma union_find_state: "union_find f key ss = start f (state ss 0 (map (find_pos f key) ss))"
  using construction_args[of "find_pos f key" ss]
  by (simp add: union_find_def make_union_set_iterator_def state_def flat_set_find_def)

lemma find_pos_le: "find_pos f key s \<le> length s"
  by (induction s) simp_all

lemma find_pos_hit: "key \<in> f ` set s \<Longrightarrow> find_pos f key s < length s \<and> f (s ! find_pos f key s) = key"
  by (induction s) auto

lemma find_pos_miss: "key \<notin> f ` set s \<Longrightarrow> find_pos f key s = length s"
  by (induction s) auto

lemma union_end_value:
  assumes "2 \<le> length ss"
  shows "union_end f ss = Inr (state ss 0 (map length ss))"
proof -
  from assms have ne: "ss \<noteq> []" by auto
  have len: "length (map length ss) = length ss" by simp
  have "\<not> live ss (map length ss)" using ne by (cases ss) (auto simp: live_def)
  moreover have "any_at_end (state ss 0 (map length ss)) = (\<not> live ss (map length ss))"
    by (rule any_at_end_state[OF ne len]) simp
  moreover have "max_index (state ss 0 (map length ss)) \<noteq> 0"
    using state_max_index[OF len, of 0] assms by simp
  ultimately show ?thesis
    using advance_all_to_end_state[OF ne len, of 0]
    by (simp add: union_end_state start_def)
qed

lemma at_pos_inject: "(current (at_pos s i) = current (at_pos s j)) = (i = j)"
  by (auto simp: at_pos_def)

lemma iterator_eq_state:
  assumes "length P = length ss" and "length P' = length ss"
  shows "iterator_eq (state ss m P) (state ss m' P') = (P = P')"
proof -
  have "list_all2 pair_eq (m_sets (state ss m P)) (m_sets (state ss m' P'))
        = (\<forall>k<length ss. P ! k = P' ! k)"
    using assms by (simp add: list_all2_conv_all_nth state_nth pair_eq_def at_pos_inject)
  also have "\<dots> = (P = P')" using assms by (auto simp: list_eq_iff_nth_eq)
  finally show ?thesis by (simp add: iterator_eq_def)
qed

lemma collect_all_ok: "(\<And>r. r \<in> set rs \<Longrightarrow> \<exists>x. r = Inr x) \<Longrightarrow> collect rs = Inr (map projr rs)"
proof (induction rs)
  case Nil
  then show ?case by simp
next
  case (Cons r rs)
  then obtain x where "r = Inr x" by auto
  with Cons show ?case by simp
qed

lemma operator_deref_state:
  assumes "length P = length ss" and "live ss P"
  shows "operator_deref (state ss m P) = Inr (map (\<lambda>(s, j). \<lparr>base = s, pos = j\<rparr>) (zip ss P))"
proof -
  let ?rs = "map (\<lambda>p. address_of_deref (current p)) (m_sets (state ss m P))"
  have nth: "?rs ! k = Inr \<lparr>base = ss ! k, pos = P ! k\<rparr>" if "k < length ss" for k
    using that assms
    by (simp add: state_nth address_of_deref_def deref_at_pos live_def) (simp add: at_pos_def)
  have "\<exists>x. r = Inr x" if "r \<in> set ?rs" for r
  proof -
    from that obtain k where "k < length ?rs" "?rs ! k = r" by (auto simp: in_set_conv_nth)
    with nth[of k] assms show ?thesis by auto
  qed
  then have "collect ?rs = Inr (map projr ?rs)" by (rule collect_all_ok)
  moreover have "map projr ?rs = map (\<lambda>(s, j). \<lparr>base = s, pos = j\<rparr>) (zip ss P)"
  proof (rule nth_equalityI)
    show "length (map projr ?rs) = length (map (\<lambda>(s, j). \<lparr>base = s, pos = j\<rparr>) (zip ss P))"
      using assms by simp
  next
    fix k assume "k < length (map projr ?rs)"
    then have k: "k < length ss" using assms by simp
    then have "map projr ?rs ! k = projr (?rs ! k)" using assms by simp
    with nth[OF k] k assms show "map projr ?rs ! k = map (\<lambda>(s, j). \<lparr>base = s, pos = j\<rparr>) (zip ss P) ! k"
      by simp
  qed
  ultimately show ?thesis by (simp add: operator_deref_def)
qed

lemma view_ids_state:
  assumes "length P = length ss" and "heads_at f ss P m"
  shows "view_ids f (map (\<lambda>(s, j). \<lparr>base = s, pos = j\<rparr>) (zip ss P)) = replicate (length ss) m"
proof (rule nth_equalityI)
  show "length (view_ids f (map (\<lambda>(s, j). \<lparr>base = s, pos = j\<rparr>) (zip ss P))) = length (replicate (length ss) m)"
    using assms by (simp add: view_ids_def)
next
  fix k assume "k < length (view_ids f (map (\<lambda>(s, j). \<lparr>base = s, pos = j\<rparr>) (zip ss P)))"
  then have k: "k < length ss" using assms by (simp add: view_ids_def)
  with assms show "view_ids f (map (\<lambda>(s, j). \<lparr>base = s, pos = j\<rparr>) (zip ss P)) ! k = replicate (length ss) m ! k"
    by (simp add: view_ids_def get_element_id_def pointee_def heads_at_def)
qed

lemma settled_min:
  assumes "strictly_sorted f ss" and "ss \<noteq> []" and "live ss P" and "heads_at f ss P m"
  shows "m \<in> rest_ids f ss P \<and> (\<forall>c\<in>rest_ids f ss P. m \<le> c)"
proof -
  from assms(2) have 0: "0 < length ss" by simp
  from assms(3) 0 have "P ! 0 < length (ss ! 0)" by (simp add: live_def)
  from rest_ids_head_lower_bound[OF assms(1) 0 this] assms(4) 0
  have "\<forall>c\<in>rest_ids f ss P. m \<le> c" by (simp add: heads_at_def)
  with rest_ids_heads[OF assms(3,4)] show ?thesis by simp
qed

lemma sorted_list_of_set_least:
  fixes m :: int
  assumes "finite A" and "m \<in> A" and "\<forall>c\<in>A. m \<le> c"
  shows "sorted_list_of_set A = m # sorted_list_of_set (A - {m})"
proof -
  from assms have "Min A = m" by (intro Min_eqI) auto
  moreover from assms have "A \<noteq> {}" by auto
  ultimately show ?thesis using sorted_list_of_set_nonempty[OF assms(1)] by simp
qed

lemma traverse_from_state:
  assumes "2 \<le> length ss" and "strictly_sorted f ss" and "length P = length ss"
    and "settled f ss m P" and "card (rest_ids f ss P) < fuel"
  shows "traverse_from f fuel (state ss 0 (map length ss)) (state ss m P)
         = Some (Inr (map (replicate (length ss)) (sorted_list_of_set (rest_ids f ss P))))"
  using assms(3-)
proof (induction fuel arbitrary: m P)
  case 0
  then show ?case by simp
next
  case (Suc fuel)
  from assms(1) have ne: "ss \<noteq> []" by auto
  note len = Suc.prems(1)
  have ieq: "iterator_eq (state ss m P) (state ss 0 (map length ss)) = (P = map length ss)"
    by (rule iterator_eq_state[OF len]) simp
  show ?case
  proof (cases "P = map length ss")
    case True
    then have "rest_ids f ss P = {}" by (simp add: rest_ids_ends[OF ne])
    with True ieq show ?thesis by simp
  next
    case False
    with Suc.prems(2) have lv: "live ss P" and hd: "heads_at f ss P m"
      by (auto simp: settled_def)
    note mn = settled_min[OF assms(2) ne lv hd]
    have fin: "finite (rest_ids f ss P)" by (rule finite_rest_ids[OF ne])
    from operator_inc_state[OF assms(1) len assms(2) lv, of m] obtain m' P' where
      r: "operator_inc f (state ss m P) = Inr (state ss m' P')" "length P' = length ss"
        "rest_ids f ss P' = rest_ids f ss P - {f (ss ! (length ss - 1) ! (P ! (length ss - 1)))}"
        "settled f ss m' P'"
      by blast
    have "f (ss ! (length ss - 1) ! (P ! (length ss - 1))) = m"
      using hd assms(1) by (simp add: heads_at_def)
    with r(3) have rest': "rest_ids f ss P' = rest_ids f ss P - {m}" by simp
    have "card (rest_ids f ss P') < card (rest_ids f ss P)"
      unfolding rest' using fin mn by (intro card_Diff1_less) simp_all
    with Suc.prems(3) have "card (rest_ids f ss P') < fuel" by simp
    from Suc.IH[OF r(2,4) this]
    have ih: "traverse_from f fuel (state ss 0 (map length ss)) (state ss m' P')
         = Some (Inr (map (replicate (length ss)) (sorted_list_of_set (rest_ids f ss P - {m}))))"
      by (simp add: rest')
    have "sorted_list_of_set (rest_ids f ss P) = m # sorted_list_of_set (rest_ids f ss P - {m})"
      using sorted_list_of_set_least[OF fin] mn by simp
    with False ieq ih r(1) operator_deref_state[OF len lv, of m] view_ids_state[OF len hd]
    show ?thesis by simp
  qed
qed

lemma rest_ids_begin: "rest_ids f ss (map (\<lambda>s. 0) ss) = (\<Inter>s\<in>set ss. f ` set s)"
proof -
  have "(\<forall>k<length ss. c \<in> f ` set (ss ! k)) = (\<forall>s\<in>set ss. c \<in> f ` set s)" for c
    by (metis in_set_conv_nth)
  then show ?thesis by (auto simp: rest_ids_def)
qed

text \<open>
  Over two or more sets sorted strictly ascending by identifier, and with a projection
  that returns the member \<open>Id\<close> on the records of the last set (whose member \<open>start()\<close>
  reads), the traversal from \<open>begin()\<close> to \<open>end()\<close> ends within one round more than there
  are common identifiers, and it sees exactly the common identifiers of all sets, in
  ascending order, each once and in every record of its view. The number of advances is
  the number of rounds, the number of common identifiers.
\<close>

theorem traverse_intersection:
  assumes "2 \<le> length ss" and "strictly_sorted f ss"
    and "\<forall>x\<in>set (ss ! (length ss - 1)). f x = Id x"
    and "card (\<Inter>s\<in>set ss. f ` set s) < fuel"
  shows "traverse f fuel ss
         = Some (Inr (map (replicate (length ss)) (sorted_list_of_set (\<Inter>s\<in>set ss. f ` set s))))"
proof -
  have len: "length (map (\<lambda>s. 0::nat) ss) = length ss" by simp
  from start_state[OF assms(1) len assms(2) _ assms(3), of 0] obtain m P where
    b: "union_begin f ss = Inr (state ss m P)" "length P = length ss"
      "rest_ids f ss P = rest_ids f ss (map (\<lambda>s. 0) ss)" "settled f ss m P"
    by (auto simp: union_begin_state)
  from b(3) have rest: "rest_ids f ss P = (\<Inter>s\<in>set ss. f ` set s)" by (simp add: rest_ids_begin)
  with assms(4) have "card (rest_ids f ss P) < fuel" by simp
  from traverse_from_state[OF assms(1,2) b(2,4) this] b(1) union_end_value[OF assms(1), of f] rest
  show ?thesis by (simp add: traverse_def)
qed

text \<open>The three example sets together: they share the identifier \<open>2\<close> only.\<close>

lemma common_ids_ABC: "(\<Inter>s\<in>set [seqA, seqB, seqC]. Id ` set s) = {2}"
  by (simp add: seqA_def seqB_def seqC_def)

lemma traverse_intersection_ABC:
  "traverse Id 2 [seqA, seqB, seqC] = Some (Inr [[2, 2, 2]])"
proof -
  have s: "strictly_sorted Id [seqA, seqB, seqC]"
    by (simp add: strictly_sorted_def seqA_def seqB_def seqC_def)
  have "card (\<Inter>s\<in>set [seqA, seqB, seqC]. Id ` set s) < 2" unfolding common_ids_ABC by simp
  from traverse_intersection[OF _ s _ this] show ?thesis
    unfolding common_ids_ABC by (simp add: numeral_3_eq_3)
qed

lemma settled_cases:
  assumes "strictly_sorted f ss" and "ss \<noteq> []" and "settled f ss m P"
  shows "(rest_ids f ss P = {} \<and> P = map length ss) \<or>
         (live ss P \<and> heads_at f ss P m \<and> m \<in> rest_ids f ss P \<and> (\<forall>c\<in>rest_ids f ss P. m \<le> c))"
  using assms(3) settled_min[OF assms(1,2)] by (auto simp: settled_def)

lemma end_state_ends: "end_state (state ss m (map length ss))"
proof -
  have "current p = endIt p" if "p \<in> set (m_sets (state ss m (map length ss)))" for p
  proof -
    from that obtain k where "k < length ss" "m_sets (state ss m (map length ss)) ! k = p"
      by (auto simp: in_set_conv_nth)
    then show ?thesis using state_nth[of k ss "map length ss" m]
      by (auto simp: at_pos_def flat_set_end_def)
  qed
  then show ?thesis by (simp add: end_state_def list_all_iff)
qed

lemma positioned_state:
  assumes "length P = length ss" and "live ss P" and "heads_at f ss P m"
  shows "positioned f (state ss m' P)"
  using operator_deref_state[OF assms(1,2), of m'] view_ids_state[OF assms(1,3)]
  by (simp add: positioned_def list_all_iff)

lemma settled_observable:
  assumes "length P = length ss" and "settled f ss m P"
  shows "positioned f (state ss m P) \<or> end_state (state ss m P)"
  using assms positioned_state[OF assms(1)] end_state_ends[of ss m]
  by (auto simp: settled_def)

lemma operator_inc_at_end:
  assumes "ss \<noteq> []"
  shows "operator_inc f (state ss m (map length ss)) = Inl IncrementPastEnd"
proof -
  have len: "length (map length ss) = length ss" by simp
  have d: "length ss - 1 < length ss" using assms by (cases ss) simp_all
  have "m_sets (state ss m (map length ss)) ! (length ss - 1)
        = at_pos (ss ! (length ss - 1)) (length (ss ! (length ss - 1)))"
    using state_nth[OF d len, of m] d by simp
  then show ?thesis
    using state_max_index[OF len, of m]
    by (simp add: operator_inc_def incr_def at_pos_def)
qed

lemma advances_state:
  assumes "2 \<le> length ss" and "strictly_sorted f ss"
  shows "length P = length ss \<Longrightarrow> settled f ss m P \<Longrightarrow> advances f n (state ss m P) = Inr it \<Longrightarrow>
         \<exists>m' P'. it = state ss m' P' \<and> length P' = length ss \<and> settled f ss m' P'"
proof (induction n arbitrary: m P)
  case 0
  then show ?case by auto
next
  case (Suc n)
  from assms(1) have ne: "ss \<noteq> []" by auto
  show ?case
  proof (cases "P = map length ss")
    case True
    with Suc.prems(3) operator_inc_at_end[OF ne, of f m] show ?thesis by simp
  next
    case False
    with Suc.prems(2) have lv: "live ss P" by (auto simp: settled_def)
    from operator_inc_state[OF assms(1) Suc.prems(1) assms(2) lv, of m] obtain m1 P1 where
      r: "operator_inc f (state ss m P) = Inr (state ss m1 P1)" "length P1 = length ss"
         "settled f ss m1 P1"
      by blast
    with Suc.prems(3) have "advances f n (state ss m1 P1) = Inr it" by simp
    from Suc.IH[OF r(2,3) this] show ?thesis .
  qed
qed

lemma construction_state:
  assumes "2 \<le> length ss" and "strictly_sorted f ss"
    and "\<forall>x\<in>set (ss ! (length ss - 1)). f x = Id x"
    and "mk \<in> {union_begin f, union_end f, union_find f key}"
  shows "\<exists>m P. mk ss = Inr (state ss m P) \<and> length P = length ss \<and> settled f ss m P"
proof -
  have *: "\<exists>m P. start f (state ss 0 (map g ss)) = Inr (state ss m P) \<and> length P = length ss \<and>
             settled f ss m P" if "\<forall>s. g s \<le> length s" for g
  proof -
    have len: "length (map g ss) = length ss" by simp
    have "\<forall>k<length ss. map g ss ! k \<le> length (ss ! k)" using that by simp
    from start_state[OF assms(1) len assms(2) this assms(3), of 0] show ?thesis by blast
  qed
  consider "mk = union_begin f" | "mk = union_end f" | "mk = union_find f key"
    using assms(4) by auto
  then show ?thesis
  proof cases
    case 1
    with *[of "\<lambda>s. 0"] show ?thesis by (simp add: union_begin_state)
  next
    case 2
    with *[of length] show ?thesis by (simp add: union_end_state)
  next
    case 3
    with *[of "find_pos f key"] show ?thesis by (simp add: union_find_state find_pos_le)
  qed
qed

text \<open>
  Under the same conditions every state reached by \<open>begin\<close>, \<open>end\<close> or \<open>find\<close> and any
  number of advances is positioned or the end state.
\<close>

theorem reachable_states_positioned_or_end:
  assumes "2 \<le> length ss" and "strictly_sorted f ss"
    and "\<forall>x\<in>set (ss ! (length ss - 1)). f x = Id x"
    and "mk \<in> {union_begin f, union_end f, union_find f key}"
    and "mk ss = Inr it0" and "advances f n it0 = Inr it"
  shows "positioned f it \<or> end_state it"
proof -
  from construction_state[OF assms(1-4)] assms(5) obtain m P where
    c: "it0 = state ss m P" "length P = length ss" "settled f ss m P" by auto
  from advances_state[OF assms(1,2) c(2,3)] assms(6) c(1) obtain m' P' where
    "it = state ss m' P'" "length P' = length ss" "settled f ss m' P'" by blast
  with settled_observable show ?thesis by blast
qed

text \<open>
  Under the same conditions \<open>find\<close> differs from \<open>end()\<close> exactly when every set has the
  identifier; the view of the iterator it returns then holds records with that identifier
  only, and otherwise the iterator is in the end state.
\<close>

theorem find_consistent:
  assumes "2 \<le> length ss" and "strictly_sorted f ss"
    and "\<forall>x\<in>set (ss ! (length ss - 1)). f x = Id x"
  shows "\<exists>it stop. union_find f key ss = Inr it \<and> union_end f ss = Inr stop \<and>
           (\<not> iterator_eq it stop) = (\<forall>s\<in>set ss. key \<in> f ` set s) \<and>
           (if \<forall>s\<in>set ss. key \<in> f ` set s
            then map_sum id (view_ids f) (operator_deref it) = Inr (replicate (length ss) key)
            else end_state it)"
proof -
  from assms(1) have ne: "ss \<noteq> []" by auto
  let ?P0 = "map (find_pos f key) ss"
  have len0: "length ?P0 = length ss" by simp
  have bnd: "\<forall>k<length ss. ?P0 ! k \<le> length (ss ! k)" by (simp add: find_pos_le)
  from start_state[OF assms(1) len0 assms(2) bnd assms(3), of 0] obtain m P where
    r: "union_find f key ss = Inr (state ss m P)" "length P = length ss"
       "rest_ids f ss P = rest_ids f ss ?P0" "settled f ss m P"
    by (auto simp: union_find_state)
  note e = union_end_value[OF assms(1), of f]
  have ieq: "iterator_eq (state ss m P) (state ss 0 (map length ss)) = (P = map length ss)"
    by (rule iterator_eq_state[OF r(2)]) simp
  note cases = settled_cases[OF assms(2) ne r(4)]
  show ?thesis
  proof (cases "\<forall>s\<in>set ss. key \<in> f ` set s")
    case True
    have lv0: "live ss ?P0" using True by (simp add: live_def find_pos_hit)
    have hd0: "heads_at f ss ?P0 key" using True by (simp add: heads_at_def find_pos_hit)
    from settled_min[OF assms(2) ne lv0 hd0]
    have k: "key \<in> rest_ids f ss P" "\<forall>c\<in>rest_ids f ss P. key \<le> c" by (simp_all add: r(3))
    with cases have lv: "live ss P" and hd: "heads_at f ss P m" and m: "m \<in> rest_ids f ss P"
      "\<forall>c\<in>rest_ids f ss P. m \<le> c" by auto
    from k m have "m = key" by (auto intro: antisym)
    with hd have hdk: "heads_at f ss P key" by simp
    have "P \<noteq> map length ss" using lv ne by (cases ss) (auto simp: live_def)
    with True r(1) e ieq operator_deref_state[OF r(2) lv, of m] view_ids_state[OF r(2) hdk]
    show ?thesis by simp
  next
    case False
    then obtain k where k: "k < length ss" "key \<notin> f ` set (ss ! k)"
      by (auto simp: in_set_conv_nth)
    then have "length (ss ! k) \<le> ?P0 ! k" by (simp add: find_pos_miss)
    from rest_ids_at_end[OF k(1) this, of f] r(3) have "rest_ids f ss P = {}" by simp
    with cases have "P = map length ss" by auto
    with False r(1) e ieq end_state_ends[of ss m] show ?thesis by auto
  qed
qed

text \<open>
  Under the same conditions no construction dereferences an end cursor or fails otherwise.
\<close>

theorem construction_never_dereferences_end:
  assumes "2 \<le> length ss" and "strictly_sorted f ss"
    and "\<forall>x\<in>set (ss ! (length ss - 1)). f x = Id x"
    and "mk \<in> {union_begin f, union_end f, union_find f key}"
  shows "\<exists>it. mk ss = Inr it"
  using construction_state[OF assms] by blast

text \<open>
  Progress of the loops. Every iteration of the inner loop of \<open>advance_until\<close> increments
  its cursor (\<open>advance_while_less_step\<close>). A pass of the loop of \<open>operator++\<close> need not
  move a cursor: the first pass after \<open>begin()\<close> over the sets with identifiers \<open>{9}\<close> and
  \<open>{1,2,9}\<close> only raises \<open>max_\<close> from \<open>2\<close> to \<open>9\<close>. What decreases with every such pass is
  the number of identifiers above \<open>max_\<close>, the measure of \<open>sync_loop\<close>.
\<close>

lemma pass_only_raises_max:
  "advance_until Id 1 False
     (state [[\<lparr>Id = 9\<rparr>], [\<lparr>Id = 1\<rparr>, \<lparr>Id = 2\<rparr>, \<lparr>Id = 9\<rparr>]] 2 [0, 1])
   = Inr (False, state [[\<lparr>Id = 9\<rparr>], [\<lparr>Id = 1\<rparr>, \<lparr>Id = 2\<rparr>, \<lparr>Id = 9\<rparr>]] 9 [0, 1])"
  by code_simp

section \<open>Traversal of the example sets\<close>

lemma traverse_from_more_fuel:
  "traverse_from f k e it = Some r \<Longrightarrow> traverse_from f (k + j) e it = Some r"
proof (induction k arbitrary: it r)
  case 0
  then show ?case by simp
next
  case (Suc k)
  show ?case
  proof (cases "iterator_eq it e")
    case True
    with Suc.prems show ?thesis by simp
  next
    case False
    show ?thesis
    proof (cases "operator_deref it")
      case (Inl a)
      with False Suc.prems show ?thesis by simp
    next
      case v: (Inr v)
      show ?thesis
      proof (cases "operator_inc f it")
        case (Inl a)
        with False v Suc.prems show ?thesis by simp
      next
        case i: (Inr it')
        with False v Suc.prems obtain r' where r': "traverse_from f k e it' = Some r'"
          by (cases "traverse_from f k e it'") auto
        from Suc.IH[OF r'] r' False v i Suc.prems show ?thesis by simp
      qed
    qed
  qed
qed

lemma traverse_more_fuel: "traverse f k sets = Some r \<Longrightarrow> traverse f (k + j) sets = Some r"
  by (auto simp: traverse_def traverse_from_more_fuel split: sum.splits)

lemma traverse_AC: "traverse Id 3 [seqA, seqC] = Some (Inr [[2, 2], [3, 3]])"
  by code_simp

lemma traverse_CA: "traverse Id 3 [seqC, seqA] = Some (Inr [[2, 2], [3, 3]])"
  by code_simp

text \<open>
  Claim C7, as stated: the traversal of the intersection of \<open>A\<close> (identifiers \<open>{1,2,3}\<close>)
  and \<open>C\<close> (identifiers \<open>{2,3}\<close>) yields exactly the identifiers \<open>[3]\<close>. It does not: the
  traversal ends after two rounds, and the first of them is on identifier \<open>2\<close>.
\<close>

theorem intersection_A_C_is_not_3:
  "traverse Id 3 [seqA, seqC] = Some (Inr [[2, 2], [3, 3]]) \<and> [[2, 2], [3, 3]] \<noteq> [[3, 3::int]]"
  using traverse_AC by simp

text \<open>
  Claim C7, amended: the traversal of the intersection of \<open>A\<close> and \<open>C\<close>, in either order of
  the two sets and with any bound of at least three rounds, yields exactly the identifiers
  \<open>[2, 3]\<close>, each seen in both records of its view.
\<close>

theorem intersection_A_C:
  "traverse Id (3 + k) [seqA, seqC] = Some (Inr [[2, 2], [3, 3]]) \<and>
   traverse Id (3 + k) [seqC, seqA] = Some (Inr [[2, 2], [3, 3]])"
  using traverse_more_fuel[OF traverse_AC] traverse_more_fuel[OF traverse_CA] by simp

section \<open>A union over a single set\<close>

text \<open>
  With one set, \<open>start()\<close> skips the emptiness check and reads \<open>current->Id\<close> at once. When
  the cursor is the end cursor, as it is for \<open>end()\<close>, for \<open>begin()\<close> of an empty set and for a
  \<open>find\<close> that misses, this dereferences the end cursor.
\<close>

lemma single_set_end: "union_end f [s] = Inl DerefEnd"
  by (simp add: union_end_def make_union_set_iterator_def start_def
      make_union_set_iterator_pair_def flat_set_end_def max_index_def deref_def)

lemma single_set_begin_empty: "union_begin f [[]] = Inl DerefEnd"
  by (simp add: union_begin_def make_union_set_iterator_def start_def
      make_union_set_iterator_pair_def flat_set_begin_def flat_set_end_def max_index_def deref_def)

lemma single_set_traverse: "traverse f fuel [s] = Some (Inl DerefEnd)"
proof (cases "union_begin f [s]")
  case (Inl e)
  then have "e = DerefEnd"
    by (auto simp: union_begin_def make_union_set_iterator_def start_def
      make_union_set_iterator_pair_def flat_set_begin_def flat_set_end_def max_index_def deref_def
      has_single_set_def split: if_splits)
  with Inl show ?thesis by (simp add: traverse_def)
next
  case (Inr it)
  then show ?thesis by (simp add: traverse_def single_set_end)
qed

text \<open>
  Claim C1 says that for every non-empty list of sequences, each sorted strictly ascending
  by identifier, the identifiers seen while traversing from \<open>begin()\<close> to \<open>end()\<close> are the
  sorted intersection of the identifier sets. For the list of one empty sequence the
  intersection is empty, but the traversal does not return the empty list: \<open>begin()\<close>
  dereferences the end cursor. (For two or more sequences see \<open>traverse_intersection\<close>.)
\<close>

theorem traversal_of_single_empty_set_fails: "traverse f fuel [[]] = Some (Inl DerefEnd)"
  by (rule single_set_traverse)

text \<open>
  Claim C3 says that construction never dereferences an end cursor, for any number of
  sequences, one included. For one sequence, whatever it holds, constructing \<open>end()\<close>
  dereferences the end cursor. (For two or more sequences see
  \<open>construction_never_dereferences_end\<close>.)
\<close>

theorem end_of_single_set_dereferences_end: "union_end f [s] = Inl DerefEnd"
  by (rule single_set_end)

text \<open>
  Claim C5 says that a lookup for an identifier that is absent yields the terminal
  iterator and never an error. Looking up \<open>100\<close> in the single set \<open>A\<close>, or anything in a
  single empty set, dereferences the end cursor that the lookup returned. (For two or
  more sets see \<open>find_consistent\<close>.)
\<close>

theorem find_missing_in_single_set_fails:
  "union_find Id 100 [seqA] = Inl DerefEnd \<and> union_find f key [[]] = Inl DerefEnd"
proof
  show "union_find Id 100 [seqA] = Inl DerefEnd" by code_simp
  show "union_find f key [[]] = Inl DerefEnd"
    by (simp add: union_find_def make_union_set_iterator_def start_def
        make_union_set_iterator_pair_def flat_set_find_def max_index_def deref_def)
qed

text \<open>
  Claim C6 says that for every non-empty list of sequences the traversal starts at
  \<open>begin()\<close> and reaches \<open>end()\<close> after as many advances as the intersection has elements,
  and that the catch-up loops terminate. The loops do terminate: \<open>advance_while_less\<close>,
  \<open>advance_until\<close> and \<open>sync_loop\<close> are total functions. But over one empty sequence the
  traversal has no first state: \<open>begin()\<close> fails.
\<close>

theorem begin_of_single_empty_set_fails: "union_begin f [[]] = Inl DerefEnd"
  by (rule single_set_begin_empty)

text \<open>
  Claim C8 says that a union over exactly one sequence is traversed like the sequence
  itself. The traversal loop compares with \<open>end()\<close>, and over one sequence neither an empty
  \<open>begin()\<close> nor any \<open>end()\<close> can be constructed without dereferencing an end cursor: no
  traversal of a single sequence returns a list of identifiers.
\<close>

theorem traversal_of_single_set_fails: "traverse f fuel [s] = Some (Inl DerefEnd)"
  by (rule single_set_traverse)

text \<open>
  Between \<open>begin()\<close> of a non-empty sequence and the end, the iterator over one set does
  pass through: an advance is the increment of the only cursor, the view after \<open>k\<close>
  advances points to record \<open>k\<close> of the sequence, and after as many advances as the
  sequence has records the cursor is the end cursor.
\<close>

lemma single_set_operator_inc:
  "i < length s \<Longrightarrow> operator_inc f (state [s] m [i]) = Inr (state [s] m [Suc i])"
  by (simp add: operator_inc_def max_index_def set_current_def state_def at_pos_def incr_def)

lemma single_set_advances:
  "i + k \<le> length s \<Longrightarrow> advances f k (state [s] m [i]) = Inr (state [s] m [i + k])"
  by (induction k arbitrary: i) (simp_all add: single_set_operator_inc)

lemma single_set_begin:
  "s \<noteq> [] \<Longrightarrow> union_begin f [s] = Inr (state [s] (Id (s ! 0)) [0])"
  by (simp add: union_begin_def make_union_set_iterator_def start_def
      make_union_set_iterator_pair_def flat_set_begin_def max_index_def deref_def
      has_single_set_def state_def at_pos_def)

lemma single_set_deref:
  "i < length s \<Longrightarrow> map_sum id (map pointee) (operator_deref (state [s] m [i])) = Inr [s ! i]"
  by (simp add: operator_deref_def address_of_deref_def deref_def state_def at_pos_def pointee_def)

theorem single_set_pass_through:
  assumes "k < length s"
  shows "\<exists>it0 it. union_begin f [s] = Inr it0 \<and> advances f k it0 = Inr it \<and>
           map_sum id (map pointee) (operator_deref it) = Inr [s ! k] \<and>
           (\<exists>stop. advances f (length s) it0 = Inr stop \<and> end_state stop)"
proof -
  from assms have ne: "s \<noteq> []" by auto
  have "end_state (state [s] (Id (s ! 0)) [length s])"
    by (simp add: end_state_def state_def at_pos_def flat_set_end_def)
  with single_set_begin[OF ne, of f] single_set_advances[of 0 k s f "Id (s ! 0)"]
    single_set_advances[of 0 "length s" s f "Id (s ! 0)"] single_set_deref[OF assms, of "Id (s ! 0)"] assms
  show ?thesis by simp
qed

section \<open>A specialised identifier projection\<close>

text \<open>
  Claim C4 says that every identifier extraction of the core goes through the projection
  \<open>element_id\<close>, the initialisation of \<open>max_\<close> in \<open>start()\<close> included. Whatever the
  projection \<open>f\<close> is, \<open>start()\<close> sets \<open>max_\<close> to the member \<open>Id\<close> of the record. With the
  projection \<open>entity\<close>, two sets that share the identifier \<open>5\<close> are traversed as if they
  shared none, because \<open>max_\<close> starts at the member \<open>Id = 7\<close>.
\<close>

theorem start_reads_Id_member:
  "union_begin f [[r]] = Inr \<lparr>m_max = Id r, m_sets = [at_pos [r] 0]\<rparr> \<and>
   traverse entity 2 [[\<lparr>Id = 9, entity = 5\<rparr>], [\<lparr>Id = 7, entity = 5\<rparr>]] = Some (Inr [])"
proof
  show "union_begin f [[r]] = Inr \<lparr>m_max = Id r, m_sets = [at_pos [r] 0]\<rparr>"
    by (simp add: union_begin_def make_union_set_iterator_def start_def
      make_union_set_iterator_pair_def flat_set_begin_def flat_set_end_def max_index_def deref_def
      has_single_set_def at_pos_def)
  show "traverse entity 2 [[\<lparr>Id = 9, entity = 5\<rparr>], [\<lparr>Id = 7, entity = 5\<rparr>]] = Some (Inr [])"
    by code_simp
qed

text \<open>
  Claim C2 says that every state reached by construction and advances is positioned, with
  all current identifiers equal, or the end state. With the projection \<open>entity\<close> and two
  sets of one record each, identifiers \<open>1\<close> and \<open>5\<close>, \<open>begin()\<close> returns a state that is
  neither: its cursors stand on the identifiers \<open>1\<close> and \<open>5\<close>. (With a projection that
  returns the member \<open>Id\<close> see \<open>reachable_states_positioned_or_end\<close>.)
\<close>

theorem misaligned_state_after_begin:
  "union_begin entity [[\<lparr>Id = 0, entity = 1\<rparr>], [\<lparr>Id = 1, entity = 5\<rparr>]]
     = Inr (state [[\<lparr>Id = 0, entity = 1\<rparr>], [\<lparr>Id = 1, entity = 5\<rparr>]] 1 [0, 0]) \<and>
   map_sum id (view_ids entity)
     (operator_deref (state [[\<lparr>Id = 0, entity = 1\<rparr>], [\<lparr>Id = 1, entity = 5\<rparr>]] 1 [0, 0]))
     = Inr [1, 5] \<and>
   \<not> positioned entity (state [[\<lparr>Id = 0, entity = 1\<rparr>], [\<lparr>Id = 1, entity = 5\<rparr>]] 1 [0, 0]) \<and>
   \<not> end_state (state [[\<lparr>Id = 0, entity = 1\<rparr>], [\<lparr>Id = 1, entity = 5\<rparr>]] 1 [0, 0])"
  by code_simp

end
